theory Spec2Isabelle
  imports
    Main
    "HOL-Library.Sublist"
    "HOL-Library.Char_ord"
    "HOL-Library.List_Lexorder"
begin

section \<open>Errors\<close>

text \<open>
  The error classes that the two command files construct themselves
  (\<open>ConfigurationError\<close>, \<open>CloudApiError\<close>), and \<open>Thrown\<close> for whatever a
  collaborator (a plugin handler, the context, the cloud API, the file system) throws.
\<close>

datatype error =
    ConfigurationError string
  | CloudApiError string
  | Thrown string

section \<open>The logs command (src/commands/logs.ts)\<close>

subsection \<open>Data\<close>

text \<open>
  \<open>Service\<close> carries the two fields the command reads: \<open>service.name\<close> and
  \<open>service.module.type\<close>. A \<open>ServiceLogEntry\<close> has a service name, a timestamp and a
  message. The timestamp is a JavaScript \<open>Date\<close>, given by the number of milliseconds since
  the epoch it is made from: a number within the range of time values makes that date, a
  number outside it makes an Invalid Date.
\<close>

record Service =
  name :: string
  module_type :: string

record ServiceLogEntry =
  serviceName :: string
  timestamp :: int
  msg :: string

text \<open>
  What reaches the logger. \<open>ISO t\<close> stands for \<open>t.toISOString()\<close>, \<open>White s\<close> for
  \<open>chalk.white(s)\<close> and \<open>Yellow s\<close> for \<open>chalk.yellow(s)\<close>; a \<open>LogRecord\<close> is the
  object \<open>{ section, msg }\<close> handed to \<open>ctx.log.info\<close> or \<open>ctx.log.warn\<close>.
\<close>

datatype styled = ISO int | White string | Yellow string

datatype log_record = LogRecord string "styled list"

text \<open>
  \<open>date.toISOString()\<close>: the rendering of a valid date; for an Invalid Date it throws a
  \<open>RangeError\<close>.
\<close>

definition valid_time :: "int \<Rightarrow> bool" where
  "valid_time t \<longleftrightarrow> - 8640000000000000 \<le> t \<and> t \<le> 8640000000000000"

definition toISOString :: "int \<Rightarrow> error + styled" where
  "toISOString t =
     (if valid_time t then Inr (ISO t) else Inl (Thrown ''RangeError: Invalid time value''))"

text \<open>
  A handler is plugin code. Its observable behaviour on one call is the sequence of things it
  does to the shared stream and logger (\<open>stream.write(entry)\<close>, \<open>ctx.log.warn(record)\<close>)
  and the way the promise it returns settles: it resolves, it rejects with an error, or it
  never settles (a handler that tails forever).
\<close>

datatype act = Write ServiceLogEntry | Warn log_record

datatype settlement = Resolves | Rejects error | Never

record 'env GetServiceLogsParams =
  service :: Service
  env :: 'env
  tail :: bool

type_synonym 'env handler = "'env GetServiceLogsParams \<Rightarrow> act list \<times> settlement"

text \<open>
  The part of \<open>GardenContext\<close> the command uses. \<open>setEnvironment\<close>, \<open>getEnvironment\<close>
  and \<open>getServices\<close> live in \<open>../context\<close>; they are taken as they are given:
  \<open>setEnvironment n\<close> is \<open>Some e\<close> when the call throws \<open>e\<close>, otherwise the context's
  selected environment becomes \<open>n\<close>; \<open>getEnvironment\<close> reads the selected environment;
  \<open>getServices names\<close> yields \<open>values(services)\<close>, in the order lodash lists them.
  \<open>actionHandlers a t\<close> is the handler registered for action \<open>a\<close> and module type \<open>t\<close>.
\<close>

record 'env GardenContext =
  environment :: "string option"
  setEnvironment :: "string \<Rightarrow> error option"
  getEnvironment :: "string option \<Rightarrow> error + 'env"
  getServices :: "string list option \<Rightarrow> error + Service list"
  actionHandlers :: "string \<Rightarrow> string \<Rightarrow> 'env handler option"

record Args =
  args_service :: "string option"

record Opts =
  opts_env :: "string option"
  opts_tail :: bool

subsection \<open>The stream, the logger and the collectors\<close>

text \<open>
  The chronological record of what happened to the stream and who did it: the consumer was
  attached (\<open>stream.forEach\<close>), the mapper was called for the service at index \<open>i\<close>,
  collector \<open>i\<close> wrote an entry, the write of collector \<open>i\<close> was rejected with the error
  the consumer threw, collector \<open>i\<close> logged a warning, the stream was ended
  (\<open>stream.end()\<close>).
\<close>

datatype event =
    Subscribed
  | Invoked nat Service
  | Wrote nat ServiceLogEntry
  | WriteRejected nat error
  | Warned nat log_record
  | Ended

text \<open>
  One mapper call of \<open>Bluebird.map\<close>: not yet called, running with the acts its handler still
  has to perform, or settled.
\<close>

datatype collector =
    NotStarted Service
  | Running "act list" settlement
  | Fulfilled
  | Rejected error

text \<open>
  The state of one run of the command: the local \<open>result\<close> array, the stream (has it a
  reader; the entries written while it had none), the two logger channels, the mapper calls of
  \<open>Bluebird.map\<close> and the first rejection among them, and the record of events.
\<close>

record state =
  result :: "ServiceLogEntry list"
  reader :: bool
  unread :: "ServiceLogEntry list"
  infoLog :: "log_record list"
  warnLog :: "log_record list"
  collectors :: "collector list"
  rejection :: "error option"
  trace :: "event list"

datatype 'a outcome = Returned 'a | Raised error | Unsettled

definition initial :: state where
  "initial = \<lparr>result = [], reader = False, unread = [], infoLog = [], warnLog = [],
     collectors = [], rejection = None, trace = []\<rparr>"

text \<open>
  The callback given to \<open>stream.forEach\<close> (lines 52 to 55): it logs the entry. The argument
  of \<open>ctx.log.info\<close> is built first, so when \<open>entry.timestamp.toISOString()\<close> throws,
  the callback throws and nothing is logged.
\<close>

definition consumer :: "ServiceLogEntry \<Rightarrow> state \<Rightarrow> error + state" where
  "consumer entry st =
     (case toISOString (timestamp entry) of
        Inl err \<Rightarrow> Inl err
      | Inr rendered \<Rightarrow>
          Inr (st\<lparr>infoLog := infoLog st @
                 [LogRecord (serviceName entry) [rendered, White (msg entry)]]\<rparr>))"

text \<open>
  \<open>stream.write(entry)\<close> by collector \<open>i\<close>. With a reader attached the entry goes to the
  reader's callback, and if the callback throws, the promise of the write rejects with that
  error and the stream goes on; without a reader the entry waits in the stream. What a handler
  does when a write of its is rejected is its own affair: it shows in the acts that follow and
  in the way the handler settles.
\<close>

definition stream_write :: "nat \<Rightarrow> ServiceLogEntry \<Rightarrow> state \<Rightarrow> state" where
  "stream_write i entry st =
     (let st' = st\<lparr>trace := trace st @ [Wrote i entry]\<rparr>
      in if reader st' then
           (case consumer entry st' of
              Inl err \<Rightarrow> st'\<lparr>trace := trace st' @ [WriteRejected i err]\<rparr>
            | Inr st'' \<Rightarrow> st'')
         else st'\<lparr>unread := unread st' @ [entry]\<rparr>)"

fun perform :: "nat \<Rightarrow> act \<Rightarrow> state \<Rightarrow> state" where
  "perform i (Write entry) st = stream_write i entry st"
| "perform i (Warn r) st = st\<lparr>warnLog := warnLog st @ [r], trace := trace st @ [Warned i r]\<rparr>"

text \<open>\<open>dummyLogStreamer\<close> (lines 68 to 73): one warning, nothing written, and it returns.\<close>

definition dummyLogStreamer :: "'env handler" where
  "dummyLogStreamer p =
     ([Warn (LogRecord (name (service p))
         [Yellow (''No handler for log retrieval available for module type '' @
                  module_type (service p))])],
      Resolves)"

text \<open>
  Modelled from the spec: \<open>ctx.getActionHandler\<close> is defined in \<open>../context\<close>, which is not
  among the sources. The spec's HandlerRegistry contract: \<open>resolve\<close> always returns a handler,
  the registered one for the module kind, and the fallback handler when none was registered.
\<close>

definition getActionHandler ::
  "'env GardenContext \<Rightarrow> string \<Rightarrow> string \<Rightarrow> 'env handler \<Rightarrow> 'env handler" where
  "getActionHandler ctx actionType moduleType defaultHandler =
     (case actionHandlers ctx actionType moduleType of
        Some h \<Rightarrow> h
      | None \<Rightarrow> defaultHandler)"

text \<open>
  The mapper of line 59 to 62, called for a service: it resolves the handler and calls it.
\<close>

definition invoke :: "'env GardenContext \<Rightarrow> 'env \<Rightarrow> bool \<Rightarrow> Service \<Rightarrow> act list \<times> settlement" where
  "invoke ctx e t s =
     (let handler = getActionHandler ctx ''getServiceLogs'' (module_type s) dummyLogStreamer
      in handler \<lparr>service = s, env = e, tail = t\<rparr>)"

text \<open>
  \<open>Bluebird.map\<close> runs the mapper calls as interleaved tasks. One step lets the task at index
  \<open>i\<close> go on: the mapper is called, or the running handler performs its next act, or, its
  acts done, its promise settles. The promise of \<open>Bluebird.map\<close> rejects with the first
  rejection; nothing stops the other tasks then. A step for a settled task, for a handler
  that never settles, or for an index that names no task changes nothing.
\<close>

definition step :: "'env GardenContext \<Rightarrow> 'env \<Rightarrow> bool \<Rightarrow> nat \<Rightarrow> state \<Rightarrow> state" where
  "step ctx e t i st =
     (if length (collectors st) \<le> i then st
      else case collectors st ! i of
        NotStarted s \<Rightarrow>
          (case invoke ctx e t s of (acts, fin) \<Rightarrow>
             st\<lparr>collectors := (collectors st)[i := Running acts fin],
                trace := trace st @ [Invoked i s]\<rparr>)
      | Running (a # as) fin \<Rightarrow>
          perform i a (st\<lparr>collectors := (collectors st)[i := Running as fin]\<rparr>)
      | Running [] Resolves \<Rightarrow> st\<lparr>collectors := (collectors st)[i := Fulfilled]\<rparr>
      | Running [] (Rejects err) \<Rightarrow>
          st\<lparr>collectors := (collectors st)[i := Rejected err],
             rejection := (case rejection st of None \<Rightarrow> Some err | Some first \<Rightarrow> Some first)\<rparr>
      | Running [] Never \<Rightarrow> st
      | Fulfilled \<Rightarrow> st
      | Rejected err \<Rightarrow> st)"

text \<open>
  The schedule is the order in which the event loop lets the tasks go on; \<open>run\<close> follows it
  from left to right.
\<close>

definition run :: "'env GardenContext \<Rightarrow> 'env \<Rightarrow> bool \<Rightarrow> nat list \<Rightarrow> state \<Rightarrow> state" where
  "run ctx e t sched st = fold (step ctx e t) sched st"

text \<open>
  What \<open>await Bluebird.map(...)\<close> followed by \<open>return result\<close> gives: the first rejection is
  thrown; with every mapper call fulfilled the \<open>result\<close> array is returned; otherwise the
  command has not returned yet.
\<close>

definition settle :: "state \<Rightarrow> ServiceLogEntry list outcome" where
  "settle st =
     (case rejection st of
        Some err \<Rightarrow> Raised err
      | None \<Rightarrow> if list_all (\<lambda>c. c = Fulfilled) (collectors st) then Returned (result st)
                else Unsettled)"

subsection \<open>\<open>LogsCommand.action\<close>\<close>

text \<open>\<open>s.split(",")\<close>.\<close>

fun split_on :: "char \<Rightarrow> string \<Rightarrow> string list" where
  "split_on c [] = [[]]"
| "split_on c (x # xs) =
     (if x = c then [] # split_on c xs
      else (x # hd (split_on c xs)) # tl (split_on c xs))"

text \<open>\<open>args.service ? args.service.split(",") : undefined\<close>; the empty string is falsy.\<close>

definition service_names :: "Args \<Rightarrow> string list option" where
  "service_names args =
     (case args_service args of
        None \<Rightarrow> None
      | Some s \<Rightarrow> if s = [] then None else Some (split_on CHR '','' s))"

text \<open>\<open>opts.env && ctx.setEnvironment(opts.env)\<close>: the selected environment afterwards.\<close>

definition select_environment :: "'env GardenContext \<Rightarrow> Opts \<Rightarrow> error + string option" where
  "select_environment ctx opts =
     (case opts_env opts of
        None \<Rightarrow> Inr (environment ctx)
      | Some n \<Rightarrow>
          if n = [] then Inr (environment ctx)
          else (case setEnvironment ctx n of
                  Some err \<Rightarrow> Inl err
                | None \<Rightarrow> Inr (Some n)))"

text \<open>
  The command (lines 42 to 65), run under a schedule of the mapper tasks. It gives what the
  caller gets and the state the run leaves.
\<close>

definition LogsCommand_action ::
  "'env GardenContext \<Rightarrow> Args \<Rightarrow> Opts \<Rightarrow> nat list \<Rightarrow> ServiceLogEntry list outcome \<times> state" where
  "LogsCommand_action ctx args opts sched =
     (case select_environment ctx opts of
        Inl err \<Rightarrow> (Raised err, initial)
      | Inr selected \<Rightarrow>
     (case getEnvironment ctx selected of
        Inl err \<Rightarrow> (Raised err, initial)
      | Inr e \<Rightarrow>
     (case getServices ctx (service_names args) of
        Inl err \<Rightarrow> (Raised err, initial)
      | Inr services \<Rightarrow>
          (let st1 = initial\<lparr>result := [], reader := False, unread := []\<rparr>;
               st2 = st1\<lparr>reader := True, trace := trace st1 @ [Subscribed]\<rparr>;
               st3 = st2\<lparr>collectors := map NotStarted services\<rparr>;
               st4 = run ctx e (opts_tail opts) sched st3
           in (settle st4, st4)))))"

section \<open>The users list command (core/src/commands/cloud/users/users-list.ts)\<close>

subsection \<open>Data\<close>

text \<open>
  The fields of \<open>UserResult\<close> that the command reads: \<open>id\<close>, \<open>name\<close>, \<open>vcsUsername\<close>,
  the groups (of which it reads the names) and \<open>createdAt\<close>.
\<close>

record Group =
  group_name :: string

record UserResult =
  user_id :: int
  user_name :: string
  vcsUsername :: "string option"
  groups :: "Group list"
  createdAt :: string

text \<open>
  \<open>applyFilter\<close>, \<open>makeUserFromResponse\<close> and \<open>noApiMsg\<close> are imported from
  \<open>../helpers\<close> and \<open>getCloudDistributionName\<close> from \<open>util/util\<close>; none of them is among
  the sources, so they are taken as they are given. \<open>applyFilter\<close> is called once with a
  string (the user's name) and once with a list of strings (the names of the user's groups);
  what counts of its result is whether it is truthy.
\<close>

datatype filter_value = Single string | Many "string list"

record 'r helpers =
  applyFilter :: "string list \<Rightarrow> filter_value \<Rightarrow> bool"
  makeUserFromResponse :: "'r \<Rightarrow> UserResult"
  noApiMsg :: "string \<Rightarrow> string \<Rightarrow> string"
  getCloudDistributionName :: "string \<Rightarrow> string"

text \<open>
  The cloud API: \<open>getProjectById\<close> yields a project or \<open>undefined\<close>, or throws;
  \<open>get_users_page n\<close> is the \<open>data\<close> of the response to \<open>GET /users?page=n\<close>, or the error
  the request throws.
\<close>

record CloudProject =
  repositoryUrl :: string

record 'r CloudApi =
  domain :: string
  getProjectById :: "string \<Rightarrow> error + CloudProject option"
  get_users_page :: "nat \<Rightarrow> error + 'r list"

record 'r Garden =
  cloudApi :: "'r CloudApi option"
  projectId :: "string option"
  projectName :: string

record UsersListOpts =
  filter_names :: "string list option"
  filter_groups :: "string list option"

subsection \<open>\<open>UsersListCommand.action\<close>\<close>

text \<open>
  The loop of lines 80 to 92: it asks for page after page until one comes back empty. It need
  not end (an API that never returns an empty page), so it is a partial function: \<open>None\<close>
  is the loop that runs forever.
\<close>

partial_function (option) fetchUsers ::
  "(nat \<Rightarrow> error + 'r list) \<Rightarrow> ('r \<Rightarrow> UserResult) \<Rightarrow> nat \<Rightarrow> UserResult list
     \<Rightarrow> (error + UserResult list) option" where
  "fetchUsers get mk page users =
     (case get page of
        Inl err \<Rightarrow> Some (Inl err)
      | Inr data \<Rightarrow>
          if length data = 0 then Some (Inr users)
          else fetchUsers get mk (page + 1) (users @ map mk data))"

declare fetchUsers.simps [code]

text \<open>\<open>opts["filter-names"] || []\<close> and \<open>opts["filter-groups"] || []\<close>.\<close>

definition nameFilter :: "UsersListOpts \<Rightarrow> string list" where
  "nameFilter opts = (case filter_names opts of None \<Rightarrow> [] | Some f \<Rightarrow> f)"

definition groupFilter :: "UsersListOpts \<Rightarrow> string list" where
  "groupFilter opts = (case filter_groups opts of None \<Rightarrow> [] | Some f \<Rightarrow> f)"

text \<open>Lines 60 to 64: the project is looked up only when \<open>garden.projectId\<close> is truthy.\<close>

definition find_project :: "'r Garden \<Rightarrow> 'r CloudApi \<Rightarrow> error + CloudProject option" where
  "find_project garden api =
     (case projectId garden of
        None \<Rightarrow> Inr None
      | Some pid \<Rightarrow> if pid = [] then Inr None else getProjectById api pid)"

text \<open>
  Lines 101 to 108: lodash's \<open>sortBy\<close> is a stable sort, ascending in the key, and compares
  strings as JavaScript's \<open><\<close> does, code unit by code unit; then the two filters.
\<close>

definition filter_users :: "'r helpers \<Rightarrow> UsersListOpts \<Rightarrow> UserResult list \<Rightarrow> UserResult list" where
  "filter_users h opts users =
     filter (\<lambda>user. applyFilter h (groupFilter opts) (Many (map group_name (groups user))))
       (filter (\<lambda>user. applyFilter h (nameFilter opts) (Single (user_name user)))
          (sort_key user_name users))"

text \<open>
  The command's result: an error thrown, or the list in \<open>{ result: ... }\<close>. What it writes
  to the log on the way (the page it fetches, the table of the users found) is not part of the
  result and is left out, and with it \<open>vcsProviderTitle\<close>, which only heads a column.
\<close>

definition UsersListCommand_action ::
  "'r helpers \<Rightarrow> 'r Garden \<Rightarrow> UsersListOpts \<Rightarrow> (error + UserResult list) option" where
  "UsersListCommand_action h garden opts =
     (case cloudApi garden of
        None \<Rightarrow> Some (Inl (ConfigurationError (noApiMsg h ''list'' ''users'')))
      | Some api \<Rightarrow>
     (case find_project garden api of
        Inl err \<Rightarrow> Some (Inl err)
      | Inr None \<Rightarrow>
          Some (Inl (CloudApiError (''Project '' @ projectName garden @ '' is not a '' @
             getCloudDistributionName h (domain api) @ '' project'')))
      | Inr (Some project) \<Rightarrow>
     (case fetchUsers (get_users_page api) (makeUserFromResponse h) 0 [] of
        None \<Rightarrow> None
      | Some (Inl err) \<Rightarrow> Some (Inl err)
      | Some (Inr users) \<Rightarrow>
          if length users = 0 then Some (Inr [])
          else (let filtered = filter_users h opts users
                in if length filtered = 0 then Some (Inr []) else Some (Inr filtered)))))"

section \<open>The debug logfiles (\<open>prepareDebugLogfiles\<close> and \<open>makeLogfileName\<close>)\<close>

subsection \<open>The two patterns\<close>

text \<open>
  \<open>filename.match(/debug.*\.log/)\<close> and \<open>filename.match(/json.*\.log/)\<close> search the name
  for the first literal, followed by any characters that are not line terminators, followed
  by \<open>.log\<close>. File names are strings of 8-bit characters here; among those the line
  terminators are line feed and carriage return.
\<close>

definition isLineTerminator :: "char \<Rightarrow> bool" where
  "isLineTerminator c \<longleftrightarrow> c = CHR 0x0A \<or> c = CHR 0x0D"

fun dot_star_then :: "string \<Rightarrow> string \<Rightarrow> bool" where
  "dot_star_then lit [] = prefix lit []"
| "dot_star_then lit (c # cs) =
     (prefix lit (c # cs) \<or> (\<not> isLineTerminator c \<and> dot_star_then lit cs))"

fun regex_search :: "string \<Rightarrow> string \<Rightarrow> string \<Rightarrow> bool" where
  "regex_search l1 l2 [] = (prefix l1 [] \<and> dot_star_then l2 (drop (length l1) []))"
| "regex_search l1 l2 (c # cs) =
     ((prefix l1 (c # cs) \<and> dot_star_then l2 (drop (length l1) (c # cs))) \<or>
      regex_search l1 l2 cs)"

definition matches_debug :: "string \<Rightarrow> bool" where
  "matches_debug filename = regex_search ''debug'' ''.log'' filename"

definition matches_json :: "string \<Rightarrow> bool" where
  "matches_json filename = regex_search ''json'' ''.log'' filename"

subsection \<open>\<open>makeLogfileName\<close>\<close>

text \<open>
  \<open>s.replace(pattern, replacement)\<close> with a string pattern replaces the first occurrence of
  the pattern. \<open>isoNow\<close> is the value of \<open>new Date().toISOString()\<close> at the call.
\<close>

fun replace_first :: "string \<Rightarrow> string \<Rightarrow> string \<Rightarrow> string" where
  "replace_first pat rep [] = (if pat = [] then rep else [])"
| "replace_first pat rep (c # cs) =
     (if prefix pat (c # cs) then rep @ drop (length pat) (c # cs)
      else c # replace_first pat rep cs)"

definition makeLogfileName :: "string \<Rightarrow> string \<Rightarrow> string \<Rightarrow> string \<Rightarrow> string" where
  "makeLogfileName logLevel commandFullName extension isoNow =
     replace_first '' '' ''-'' commandFullName @ ''.'' @ logLevel @ ''.'' @ isoNow @ ''.'' @ extension"

subsection \<open>\<open>prepareDebugLogfiles\<close>\<close>

text \<open>The retention window, in days.\<close>

definition logfileExpiryDays :: int where
  "logfileExpiryDays = 7"

text \<open>\<open>err.message\<close>.\<close>

fun message :: "error \<Rightarrow> string" where
  "message (ConfigurationError m) = m"
| "message (CloudApiError m) = m"
| "message (Thrown m) = m"

text \<open>
  What the function is given from outside: \<open>pathExists\<close>, \<open>listDirectory\<close> (from
  \<open>../util/fs\<close>, which may throw), \<open>join\<close> of node's \<open>path\<close>, the reading of \<open>moment()\<close>
  in the mapper call for a file name, and the \<open>n\<close>-th reading of
  \<open>new Date().toISOString()\<close>. \<open>moment_add_days n t\<close> is \<open>moment(t).add(n, "days")\<close>:
  moment moves the date on by \<open>n\<close> days of the calendar in local time and keeps the time of
  day, so the result is \<open>n\<close> times twenty-four hours after \<open>t\<close> only when the local clock is
  not changed in between; which it is depends on the time zone, so it is given from outside.
  \<open>inside p q\<close> says that the path \<open>q\<close> lies inside the directory at the path \<open>p\<close>
  (nothing lies inside a regular file).

  The file system is the map from a path to the birth time (\<open>lstat(path).birthtime\<close>, in
  milliseconds) of the entry there, a file or a directory; \<open>lstat\<close> of a path with no entry
  throws. \<open>remove(path)\<close> of fs-extra removes the entry and, when it is a directory,
  everything inside it; it does nothing when there is no entry.
\<close>

record logs_env =
  pathExists :: "string \<Rightarrow> bool"
  listDirectory :: "string \<Rightarrow> error + string list"
  path_join :: "string \<Rightarrow> string \<Rightarrow> string"
  inside :: "string \<Rightarrow> string \<Rightarrow> bool"
  moment_add_days :: "int \<Rightarrow> int \<Rightarrow> int"
  moment_now :: "string \<Rightarrow> int"
  date_now_iso :: "nat \<Rightarrow> string"

record cleanup_state =
  files :: "string \<rightharpoonup> int"
  debugLines :: "string list"
  warnLines :: "string list"
  failure :: "error option"

record LogfileNames =
  debugLogfileName :: string
  jsonLogfileName :: string

definition remove :: "logs_env \<Rightarrow> string \<Rightarrow> (string \<rightharpoonup> int) \<Rightarrow> (string \<rightharpoonup> int)" where
  "remove sys path fs = (\<lambda>q. if q = path \<or> inside sys path q then None else fs q)"

text \<open>
  The mapper of lines 159 to 170, for one file name. The first rejection among the mapper
  calls is kept in \<open>failure\<close>; it is what \<open>.catch\<close> receives.
\<close>

definition cleanup_file :: "logs_env \<Rightarrow> string \<Rightarrow> string \<Rightarrow> cleanup_state \<Rightarrow> cleanup_state" where
  "cleanup_file sys logsDirPath filename st =
     (if \<not> matches_debug filename \<and> \<not> matches_json filename then st
      else
        (let logfilePath = path_join sys logsDirPath filename
         in case files st logfilePath of
              None \<Rightarrow>
                st\<lparr>failure := (case failure st of
                    None \<Rightarrow> Some (Thrown (''ENOENT: no such file or directory, lstat '' @
                             [CHR 0x27] @ logfilePath @ [CHR 0x27]))
                  | Some first \<Rightarrow> Some first)\<rparr>
            | Some birthtime \<Rightarrow>
                if moment_add_days sys logfileExpiryDays birthtime < moment_now sys filename
                then st\<lparr>debugLines := debugLines st @
                          [''file '' @ filename @ '' is older than 7 days, deleting...''],
                        files := remove sys logfilePath (files st)\<rparr>
                else st))"

text \<open>
  Lines 154 to 183. The clean-up is not awaited by the caller; the state given back is the
  one it leaves when it has run. Each mapper call touches the entry of its own file name and
  what lies inside it, and the listing is of the directory itself, not of what lies deeper; so
  the calls are run one after the other, in the order of the listing.
\<close>

definition prepareDebugLogfiles ::
  "logs_env \<Rightarrow> string \<Rightarrow> string \<Rightarrow> cleanup_state \<Rightarrow> LogfileNames \<times> cleanup_state" where
  "prepareDebugLogfiles sys logsDirPath commandFullName st =
     (let st' =
        (if pathExists sys logsDirPath then
           (case listDirectory sys logsDirPath of
              Inl err \<Rightarrow>
                st\<lparr>warnLines := warnLines st @
                  [''An error occurred while cleaning up debug logfiles: '' @ message err]\<rparr>
            | Inr filenames \<Rightarrow>
                (let st1 = fold (cleanup_file sys logsDirPath) filenames (st\<lparr>failure := None\<rparr>)
                 in case failure st1 of
                      None \<Rightarrow> st1
                    | Some err \<Rightarrow>
                        st1\<lparr>warnLines := warnLines st1 @
                          [''An error occurred while cleaning up debug logfiles: '' @ message err]\<rparr>))
         else st)
      in (\<lparr>debugLogfileName = makeLogfileName ''debug'' commandFullName ''log'' (date_now_iso sys 0),
           jsonLogfileName = makeLogfileName ''silly'' commandFullName ''jsonl'' (date_now_iso sys 1)\<rparr>,
          st'))"

section \<open>Notions used to state the properties\<close>

text \<open>What collector \<open>j\<close> did, in order, as the record of events has it.\<close>

fun acts_by :: "nat \<Rightarrow> event list \<Rightarrow> act list" where
  "acts_by j [] = []"
| "acts_by j (Wrote i entry # evs) = (if i = j then Write entry # acts_by j evs else acts_by j evs)"
| "acts_by j (Warned i r # evs) = (if i = j then Warn r # acts_by j evs else acts_by j evs)"
| "acts_by j (ev # evs) = acts_by j evs"

text \<open>The entries written to the stream, in arrival order.\<close>

fun written :: "event list \<Rightarrow> ServiceLogEntry list" where
  "written [] = []"
| "written (Wrote i entry # evs) = entry # written evs"
| "written (ev # evs) = written evs"

text \<open>
  One task seen alone: what a step makes of it (\<open>advance\<close>), the act the step performs
  (\<open>out\<close>), the acts of its next \<open>n\<close> steps (\<open>emitted\<close>), and where a handler whose acts are
  done ends (\<open>finish\<close>).
\<close>

fun advance :: "'env GardenContext \<Rightarrow> 'env \<Rightarrow> bool \<Rightarrow> collector \<Rightarrow> collector" where
  "advance ctx e t (NotStarted s) = (case invoke ctx e t s of (acts, fin) \<Rightarrow> Running acts fin)"
| "advance ctx e t (Running (a # as) fin) = Running as fin"
| "advance ctx e t (Running [] Resolves) = Fulfilled"
| "advance ctx e t (Running [] (Rejects err)) = Rejected err"
| "advance ctx e t c = c"

fun out :: "collector \<Rightarrow> act list" where
  "out (Running (a # as) fin) = [a]"
| "out c = []"

fun emitted :: "'env GardenContext \<Rightarrow> 'env \<Rightarrow> bool \<Rightarrow> nat \<Rightarrow> collector \<Rightarrow> act list" where
  "emitted ctx e t 0 c = []"
| "emitted ctx e t (Suc n) c = out c @ emitted ctx e t n (advance ctx e t c)"

fun finish :: "settlement \<Rightarrow> collector" where
  "finish Resolves = Fulfilled"
| "finish (Rejects err) = Rejected err"
| "finish Never = Running [] Never"

text \<open>
  Three invariants of a run: a rejected task has left a rejection behind; the rejection kept
  is the error of a rejected task; with a reader on the stream, the display log holds one
  line for each entry written whose timestamp is a valid date, in the order of the writes.
\<close>

definition rejected_known :: "state \<Rightarrow> bool" where
  "rejected_known st \<longleftrightarrow>
     (\<forall>j < length (collectors st). \<forall>err. collectors st ! j = Rejected err \<longrightarrow> rejection st \<noteq> None)"

definition rejection_sound :: "state \<Rightarrow> bool" where
  "rejection_sound st \<longleftrightarrow>
     (\<forall>err. rejection st = Some err \<longrightarrow>
        (\<exists>j < length (collectors st). collectors st ! j = Rejected err))"

definition shown :: "state \<Rightarrow> bool" where
  "shown st \<longleftrightarrow>
     reader st \<and>
     infoLog st =
       map (\<lambda>entry. LogRecord (serviceName entry) [ISO (timestamp entry), White (msg entry)])
         (filter (\<lambda>entry. valid_time (timestamp entry)) (written (trace st)))"

text \<open>
  Collector \<open>j\<close> has rejected within the steps \<open>pre\<close>: its handler rejects, and \<open>pre\<close>
  has let it run to its end (one step for the call of the mapper, one for each act, one for the
  promise to settle).
\<close>

definition rejected_within ::
  "'env GardenContext \<Rightarrow> 'env \<Rightarrow> bool \<Rightarrow> Service list \<Rightarrow> nat list \<Rightarrow> nat \<Rightarrow> bool" where
  "rejected_within ctx e t services pre j \<longleftrightarrow>
     j < length services \<and>
     (case invoke ctx e t (services ! j) of
        (acts, Rejects err) \<Rightarrow> length acts + 2 \<le> count_list pre j
      | (acts, fin) \<Rightarrow> False)"

text \<open>The state in which \<open>Bluebird.map\<close> starts: consumer attached, no mapper called yet.\<close>

definition launched :: "Service list \<Rightarrow> state" where
  "launched services =
     initial\<lparr>reader := True, trace := [Subscribed], collectors := map NotStarted services\<rparr>"

text \<open>
  For the clean-up: the entry at \<open>p\<close> is that of a listed file name that matches a pattern
  and whose birth time lies more than seven calendar days back, or it lies inside such an entry;
  and each entry is as it was or is such an entry, removed.
\<close>

definition deletable :: "logs_env \<Rightarrow> string \<Rightarrow> cleanup_state \<Rightarrow> string \<Rightarrow> string \<Rightarrow> bool" where
  "deletable sys logsDirPath st filename p \<longleftrightarrow>
     (matches_debug filename \<or> matches_json filename) \<and>
     (\<exists>birthtime. files st (path_join sys logsDirPath filename) = Some birthtime \<and>
        moment_add_days sys 7 birthtime < moment_now sys filename) \<and>
     (p = path_join sys logsDirPath filename \<or> inside sys (path_join sys logsDirPath filename) p)"

definition kept_or_expired ::
  "logs_env \<Rightarrow> string \<Rightarrow> string list \<Rightarrow> cleanup_state \<Rightarrow> cleanup_state \<Rightarrow> bool" where
  "kept_or_expired sys logsDirPath filenames st st' \<longleftrightarrow>
     (\<forall>p. files st' p = files st p \<or>
          (files st' p = None \<and> (\<exists>f \<in> set filenames. deletable sys logsDirPath st f p)))"

section \<open>Concrete inputs\<close>

subsection \<open>A concrete project\<close>

text \<open>
  The scenario of the specification: service \<open>A\<close> of kind \<open>kindX\<close>, whose handler writes
  two entries, and service \<open>B\<close> of kind \<open>kindY\<close>, for which no handler is registered; and a
  service \<open>C\<close> of kind \<open>kindZ\<close>, whose handler throws. Asking for a service by a name the
  project does not have makes \<open>getServices\<close> throw.
\<close>

definition kindX_handler :: "unit handler" where
  "kindX_handler p =
     ([Write \<lparr>serviceName = name (service p), timestamp = 1, msg = ''hello''\<rparr>,
       Write \<lparr>serviceName = name (service p), timestamp = 2, msg = ''world''\<rparr>],
      Resolves)"

definition failing_handler :: "unit handler" where
  "failing_handler p = ([], Rejects (Thrown ''boom''))"

text \<open>
  Two more handlers: one for \<open>kindW\<close> that writes an entry and then throws another error,
  and one for \<open>kindV\<close> that writes an entry with a valid date and one with an Invalid Date
  and returns.
\<close>

definition late_failing_handler :: "unit handler" where
  "late_failing_handler p =
     ([Write \<lparr>serviceName = name (service p), timestamp = 5, msg = ''last words''\<rparr>],
      Rejects (Thrown ''bang''))"

definition odd_dates_handler :: "unit handler" where
  "odd_dates_handler p =
     ([Write \<lparr>serviceName = name (service p), timestamp = 3, msg = ''kept''\<rparr>,
       Write \<lparr>serviceName = name (service p), timestamp = 8640000000000001, msg = ''lost''\<rparr>],
      Resolves)"

definition scenario_ctx :: "Service list \<Rightarrow> unit GardenContext" where
  "scenario_ctx services =
     \<lparr>environment = Some ''local'',
      setEnvironment = (\<lambda>n. None),
      getEnvironment = (\<lambda>selected. Inr ()),
      getServices = (\<lambda>names. case names of
          None \<Rightarrow> Inr services
        | Some ns \<Rightarrow>
            if list_all (\<lambda>n. n \<in> set (map name services)) ns
            then Inr (filter (\<lambda>s. name s \<in> set ns) services)
            else Inl (Thrown ''unknown service'')),
      actionHandlers = (\<lambda>a t.
          if a = ''getServiceLogs'' \<and> t = ''kindX'' then Some kindX_handler
          else if a = ''getServiceLogs'' \<and> t = ''kindZ'' then Some failing_handler
          else if a = ''getServiceLogs'' \<and> t = ''kindW'' then Some late_failing_handler
          else if a = ''getServiceLogs'' \<and> t = ''kindV'' then Some odd_dates_handler
          else None)\<rparr>"

definition svcA :: Service where
  "svcA = \<lparr>name = ''A'', module_type = ''kindX''\<rparr>"

definition svcB :: Service where
  "svcB = \<lparr>name = ''B'', module_type = ''kindY''\<rparr>"

definition svcC :: Service where
  "svcC = \<lparr>name = ''C'', module_type = ''kindZ''\<rparr>"

definition svcD :: Service where
  "svcD = \<lparr>name = ''D'', module_type = ''kindW''\<rparr>"

definition svcE :: Service where
  "svcE = \<lparr>name = ''E'', module_type = ''kindV''\<rparr>"

definition all_services :: Args where
  "all_services = \<lparr>args_service = None\<rparr>"

definition no_tail :: Opts where
  "no_tail = \<lparr>opts_env = None, opts_tail = False\<rparr>"

subsection \<open>A concrete cloud project\<close>

text \<open>
  Three users on two pages, and helpers whose filter accepts a user when the filter is empty or
  names the value (one of the values) exactly.
\<close>

definition exact_helpers :: "UserResult helpers" where
  "exact_helpers =
     \<lparr>applyFilter = (\<lambda>f v. f = [] \<or>
         (case v of Single s \<Rightarrow> s \<in> set f | Many vs \<Rightarrow> list_ex (\<lambda>x. x \<in> set f) vs)),
      makeUserFromResponse = (\<lambda>r. r),
      noApiMsg = (\<lambda>action subject. ''not logged in''),
      getCloudDistributionName = (\<lambda>d. ''Garden Cloud'')\<rparr>"

definition user :: "int \<Rightarrow> string \<Rightarrow> string list \<Rightarrow> UserResult" where
  "user i n gs = \<lparr>user_id = i, user_name = n, vcsUsername = None,
      groups = map (\<lambda>g. \<lparr>group_name = g\<rparr>) gs, createdAt = ''2023-01-01''\<rparr>"

definition demo_garden :: "UserResult Garden" where
  "demo_garden =
     \<lparr>cloudApi = Some
        \<lparr>domain = ''https://cloud.example'',
         getProjectById = (\<lambda>pid. Inr (Some \<lparr>repositoryUrl = ''https://github.com/x/y''\<rparr>)),
         get_users_page = (\<lambda>page.
            if page = 0 then Inr [user 3 ''Zoe'' [''devs''], user 1 ''Gordon'' [''ops'']]
            else if page = 1 then Inr [user 2 ''Ann'' [''devs'']]
            else Inr [])\<rparr>,
      projectId = Some ''p1'',
      projectName = ''demo''\<rparr>"

definition devs_only :: UsersListOpts where
  "devs_only = \<lparr>filter_names = None, filter_groups = Some [''devs'']\<rparr>"

subsection \<open>A concrete logs directory\<close>

text \<open>
  An old and a recent debug logfile, an old file that matches neither pattern, a listed json
  logfile that is no longer there, and an old directory \<open>debug-dir.log\<close> that holds a recent
  file \<open>keep.txt\<close>. The time zone has no change of clock, so a day is twenty-four hours.
\<close>

definition demo_env :: logs_env where
  "demo_env =
     \<lparr>pathExists = (\<lambda>d. d = ''logs''),
      listDirectory = (\<lambda>d. Inr [''debug-old.log'', ''debug-new.log'', ''notes.txt'', ''json2.log'',
                                 ''debug-dir.log'']),
      path_join = (\<lambda>d f. d @ ''/'' @ f),
      inside = (\<lambda>p q. prefix (p @ ''/'') q),
      moment_add_days = (\<lambda>n t. t + n * 86400000),
      moment_now = (\<lambda>f. 1000000000),
      date_now_iso = (\<lambda>n. ''2022-01-31T09:33:55.001Z'')\<rparr>"

definition demo_files :: cleanup_state where
  "demo_files =
     \<lparr>files = [''logs/debug-old.log'' \<mapsto> 0, ''logs/debug-new.log'' \<mapsto> 999999999,
               ''logs/notes.txt'' \<mapsto> 0, ''logs/debug-dir.log'' \<mapsto> 0,
               ''logs/debug-dir.log/keep.txt'' \<mapsto> 999999999],
      debugLines = [], warnLines = [], failure = None\<rparr>"

text \<open>
  A logs directory in New York with one debug logfile, born on 5 March 2026 at noon local time
  (17:00 UTC). On 8 March the clocks there went forward an hour, so seven calendar days after
  the birth time are an hour short of seven times twenty-four hours. The clean-up runs when
  the file is six days, twenty-three hours and thirty minutes old.
\<close>

definition dst_env :: logs_env where
  "dst_env =
     \<lparr>pathExists = (\<lambda>d. d = ''logs''),
      listDirectory = (\<lambda>d. Inr [''debug.log'']),
      path_join = (\<lambda>d f. d @ ''/'' @ f),
      inside = (\<lambda>p q. prefix (p @ ''/'') q),
      moment_add_days = (\<lambda>n t. t + n * 86400000 - 3600000),
      moment_now = (\<lambda>f. 1773333000000),
      date_now_iso = (\<lambda>n. ''2026-03-12T16:30:00.000Z'')\<rparr>"

definition dst_files :: cleanup_state where
  "dst_files =
     \<lparr>files = [''logs/debug.log'' \<mapsto> 1772730000000],
      debugLines = [], warnLines = [], failure = None\<rparr>"

section \<open>The run of the collectors\<close>

text \<open>
  Each step touches one task and leaves the \<open>result\<close> array, the reader and the other tasks
  alone; a run moves task \<open>j\<close> on by as many steps as the schedule names \<open>j\<close>.
\<close>

lemma acts_by_append: "acts_by j (xs @ ys) = acts_by j xs @ acts_by j ys"
  by (induction j xs rule: acts_by.induct) auto

lemma written_append: "written (xs @ ys) = written xs @ written ys"
  by (induction xs rule: written.induct) auto

lemma perform_simps:
  "result (perform i a st) = result st"
  "reader (perform i a st) = reader st"
  "collectors (perform i a st) = collectors st"
  "rejection (perform i a st) = rejection st"
  "reader st \<Longrightarrow> unread (perform i a st) = unread st"
  "acts_by j (trace (perform i a st)) = acts_by j (trace st) @ (if i = j then [a] else [])"
  by (cases a; simp add: stream_write_def consumer_def toISOString_def Let_def acts_by_append)+

lemma step_result: "result (step ctx e t i st) = result st"
  by (auto simp: step_def perform_simps
      split: collector.splits list.splits settlement.splits prod.splits act.splits)

lemma step_reader: "reader (step ctx e t i st) = reader st"
  by (auto simp: step_def perform_simps
      split: collector.splits list.splits settlement.splits prod.splits act.splits)

lemma step_unread: "reader st \<Longrightarrow> unread (step ctx e t i st) = unread st"
  by (auto simp: step_def perform_simps
      split: collector.splits list.splits settlement.splits prod.splits act.splits)

lemma step_length: "length (collectors (step ctx e t i st)) = length (collectors st)"
  by (auto simp: step_def perform_simps
      split: collector.splits list.splits settlement.splits prod.splits)

lemma step_collectors_nth:
  "j < length (collectors st) \<Longrightarrow>
   collectors (step ctx e t i st) ! j =
     (if i = j then advance ctx e t (collectors st ! j) else collectors st ! j)"
  by (auto simp: step_def perform_simps nth_list_update
      split: collector.splits list.splits settlement.splits prod.splits)

lemma step_trace_acts:
  "acts_by j (trace (step ctx e t i st)) =
     acts_by j (trace st) @ (if i = j \<and> i < length (collectors st) then out (collectors st ! i) else [])"
  by (auto simp: step_def perform_simps acts_by_append
      split: collector.splits list.splits settlement.splits prod.splits)

lemma run_Nil: "run ctx e t [] st = st"
  by (simp add: run_def)

lemma run_Cons: "run ctx e t (i # sched) st = run ctx e t sched (step ctx e t i st)"
  by (simp add: run_def)

lemma run_result: "result (run ctx e t sched st) = result st"
  by (induction sched arbitrary: st) (simp_all add: run_Nil run_Cons step_result)

lemma run_reader: "reader (run ctx e t sched st) = reader st"
  by (induction sched arbitrary: st) (simp_all add: run_Nil run_Cons step_reader)

lemma run_unread: "reader st \<Longrightarrow> unread (run ctx e t sched st) = unread st"
  by (induction sched arbitrary: st) (simp_all add: run_Nil run_Cons step_reader step_unread)

lemma run_length: "length (collectors (run ctx e t sched st)) = length (collectors st)"
  by (induction sched arbitrary: st) (simp_all add: run_Nil run_Cons step_length)

lemma run_collectors_nth:
  "j < length (collectors st) \<Longrightarrow>
   collectors (run ctx e t sched st) ! j = (advance ctx e t ^^ count_list sched j) (collectors st ! j)"
proof (induction sched arbitrary: st)
  case Nil
  then show ?case by (simp add: run_Nil)
next
  case (Cons i sched)
  have "j < length (collectors (step ctx e t i st))"
    using Cons.prems by (simp add: step_length)
  then show ?case
    using Cons.prems by (simp add: run_Cons Cons.IH step_collectors_nth funpow_swap1)
qed

lemma run_trace_acts:
  "j < length (collectors st) \<Longrightarrow>
   acts_by j (trace (run ctx e t sched st)) =
     acts_by j (trace st) @ emitted ctx e t (count_list sched j) (collectors st ! j)"
proof (induction sched arbitrary: st)
  case Nil
  then show ?case by (simp add: run_Nil)
next
  case (Cons i sched)
  have "j < length (collectors (step ctx e t i st))"
    using Cons.prems by (simp add: step_length)
  then show ?case
    using Cons.prems by (simp add: run_Cons Cons.IH step_collectors_nth step_trace_acts)
qed

lemma advance_finish: "advance ctx e t (finish fin) = finish fin"
  by (cases fin) simp_all

lemma advance_finish_pow: "(advance ctx e t ^^ n) (finish fin) = finish fin"
  by (induction n) (simp_all add: advance_finish)

lemma advance_Nil: "advance ctx e t (Running [] fin) = finish fin"
  by (cases fin) simp_all

lemma advance_Running:
  "(advance ctx e t ^^ n) (Running as fin) =
     (if n \<le> length as then Running (drop n as) fin else finish fin)"
proof (induction n arbitrary: as)
  case 0
  then show ?case by simp
next
  case (Suc n)
  show ?case
  proof (cases as)
    case Nil
    then show ?thesis
      by (simp add: funpow_Suc_right advance_Nil advance_finish_pow del: funpow.simps)
  next
    case (Cons a as')
    then show ?thesis
      by (simp add: funpow_Suc_right Suc.IH del: funpow.simps)
  qed
qed

lemma emitted_finish: "emitted ctx e t n (finish fin) = []"
  by (induction n) (cases fin; simp add: advance_finish)+

lemma emitted_Running: "emitted ctx e t n (Running as fin) = take n as"
proof (induction n arbitrary: as)
  case 0
  then show ?case by simp
next
  case (Suc n)
  show ?case
  proof (cases as)
    case Nil
    then show ?thesis using emitted_finish[of ctx e t n fin] by (simp add: advance_Nil)
  next
    case (Cons a as')
    then show ?thesis by (simp add: Suc.IH)
  qed
qed

lemma advance_NotStarted:
  "invoke ctx e t s = (acts, fin) \<Longrightarrow>
   (advance ctx e t ^^ n) (NotStarted s) =
     (if n = 0 then NotStarted s
      else if n \<le> Suc (length acts) then Running (drop (n - 1) acts) fin
      else finish fin)"
  by (cases n) (auto simp: funpow_Suc_right advance_Running simp del: funpow.simps)

lemma emitted_NotStarted:
  "invoke ctx e t s = (acts, fin) \<Longrightarrow>
   emitted ctx e t n (NotStarted s) = take (n - 1) acts"
  by (cases n) (auto simp: emitted_Running)

lemma step_rejected_known: "rejected_known st \<Longrightarrow> rejected_known (step ctx e t i st)"
  unfolding rejected_known_def step_def
  by (auto simp: perform_simps nth_list_update
      split: collector.splits list.splits settlement.splits prod.splits option.splits)

lemma step_rejection_cases:
  "rejection (step ctx e t i st) = Some err \<Longrightarrow>
   rejection st = Some err \<or>
   (i < length (collectors st) \<and> collectors st ! i = Running [] (Rejects err))"
  by (auto simp: step_def perform_simps
      split: collector.splits list.splits settlement.splits prod.splits option.splits if_splits)

lemma step_rejection_sound:
  assumes "rejection_sound st"
  shows "rejection_sound (step ctx e t i st)"
  unfolding rejection_sound_def
proof (intro allI impI)
  fix err
  assume "rejection (step ctx e t i st) = Some err"
  then consider (old) "rejection st = Some err"
    | (new) "i < length (collectors st)" "collectors st ! i = Running [] (Rejects err)"
    using step_rejection_cases[of ctx e t i st err] by auto
  then show "\<exists>j<length (collectors (step ctx e t i st)).
               collectors (step ctx e t i st) ! j = Rejected err"
  proof cases
    case old
    then obtain j where j: "j < length (collectors st)" "collectors st ! j = Rejected err"
      using assms by (auto simp: rejection_sound_def)
    then have "collectors (step ctx e t i st) ! j = Rejected err"
      by (simp add: step_collectors_nth)
    with j(1) show ?thesis by (auto simp: step_length)
  next
    case new
    then have "collectors (step ctx e t i st) ! i = Rejected err"
      by (simp add: step_collectors_nth)
    with new(1) show ?thesis by (auto simp: step_length)
  qed
qed

lemma run_rejected_known: "rejected_known st \<Longrightarrow> rejected_known (run ctx e t sched st)"
  by (induction sched arbitrary: st) (simp_all add: run_Nil run_Cons step_rejected_known)

lemma run_rejection_sound: "rejection_sound st \<Longrightarrow> rejection_sound (run ctx e t sched st)"
  by (induction sched arbitrary: st) (simp_all add: run_Nil run_Cons step_rejection_sound)

lemma perform_shown: "shown st \<Longrightarrow> shown (perform i a st)"
  by (cases a)
    (simp_all add: shown_def stream_write_def consumer_def toISOString_def Let_def written_append)

lemma step_shown: "shown st \<Longrightarrow> shown (step ctx e t i st)"
proof -
  assume s: "shown st"
  have upd: "\<And>cs. shown (st\<lparr>collectors := cs\<rparr>)"
    using s by (simp add: shown_def)
  have inv: "\<And>cs ev. written [ev] = [] \<Longrightarrow> shown (st\<lparr>collectors := cs, trace := trace st @ [ev]\<rparr>)"
    using s by (simp add: shown_def written_append)
  have rej: "\<And>cs r. shown (st\<lparr>collectors := cs, rejection := r\<rparr>)"
    using s by (simp add: shown_def)
  show ?thesis
    unfolding step_def
    by (simp add: s upd inv rej perform_shown
        split: collector.splits list.splits settlement.splits prod.splits)
qed

lemma run_shown: "shown st \<Longrightarrow> shown (run ctx e t sched st)"
  by (induction sched arbitrary: st) (simp_all add: run_Nil run_Cons step_shown)

lemma perform_trace_head: "\<exists>evs. trace (perform i a st) = trace st @ evs"
  by (cases a) (simp_all add: stream_write_def consumer_def toISOString_def Let_def)

lemma step_trace_head: "\<exists>evs. trace (step ctx e t i st) = trace st @ evs"
proof -
  have p: "\<And>a cs. \<exists>evs. trace (perform i a (st\<lparr>collectors := cs\<rparr>)) = trace st @ evs"
    using perform_trace_head[of i _ "st\<lparr>collectors := _\<rparr>"] by simp
  show ?thesis
    unfolding step_def
    by (simp add: p split: collector.splits list.splits settlement.splits prod.splits)
qed

lemma run_trace_head: "\<exists>evs. trace (run ctx e t sched st) = trace st @ evs"
proof (induction sched arbitrary: st)
  case Nil
  then show ?case by (simp add: run_Nil)
next
  case (Cons i sched)
  obtain evs1 where a: "trace (step ctx e t i st) = trace st @ evs1"
    using step_trace_head[of ctx e t i st] by auto
  obtain evs2 where b: "trace (run ctx e t sched (step ctx e t i st)) = trace (step ctx e t i st) @ evs2"
    using Cons.IH[of "step ctx e t i st"] by auto
  show ?case by (simp add: run_Cons a b)
qed

lemma run_no_collectors: "collectors st = [] \<Longrightarrow> run ctx e t sched st = st"
  by (induction sched arbitrary: st) (simp_all add: run_Nil run_Cons step_def)

lemma action_launched:
  assumes "select_environment ctx opts = Inr selected"
    and "getEnvironment ctx selected = Inr e"
    and "getServices ctx (service_names args) = Inr services"
  shows "LogsCommand_action ctx args opts sched =
           (settle (run ctx e (opts_tail opts) sched (launched services)),
            run ctx e (opts_tail opts) sched (launched services))"
  using assms by (simp add: LogsCommand_action_def launched_def initial_def Let_def)

lemma action_cases:
  obtains (failed) err where "LogsCommand_action ctx args opts sched = (Raised err, initial)"
  | (ran) e services where
      "LogsCommand_action ctx args opts sched =
           (settle (run ctx e (opts_tail opts) sched (launched services)),
            run ctx e (opts_tail opts) sched (launched services))"
proof (cases "select_environment ctx opts")
  case (Inl err)
  then show ?thesis using failed by (simp add: LogsCommand_action_def)
next
  case sel: (Inr selected)
  show ?thesis
  proof (cases "getEnvironment ctx selected")
    case (Inl err)
    then show ?thesis using failed sel by (simp add: LogsCommand_action_def)
  next
    case env: (Inr e)
    show ?thesis
    proof (cases "getServices ctx (service_names args)")
      case (Inl err)
      then show ?thesis using failed sel env by (simp add: LogsCommand_action_def)
    next
      case (Inr services)
      then show ?thesis using ran action_launched[OF sel env] by blast
    qed
  qed
qed

lemma launched_simps:
  "result (launched services) = []"
  "reader (launched services)"
  "unread (launched services) = []"
  "infoLog (launched services) = []"
  "collectors (launched services) = map NotStarted services"
  "rejection (launched services) = None"
  "trace (launched services) = [Subscribed]"
  by (simp_all add: launched_def initial_def)

lemma launched_shown: "shown (launched services)"
  by (simp add: shown_def launched_simps)

lemma launched_rejected_known: "rejected_known (launched services)"
  by (simp add: rejected_known_def launched_simps)

lemma launched_rejection_sound: "rejection_sound (launched services)"
  by (simp add: rejection_sound_def launched_simps)

lemma settle_Returned: "settle st = Returned r \<Longrightarrow> r = result st"
  by (auto simp: settle_def split: option.splits if_splits)

lemma advance_Rejected:
  assumes "(advance ctx e t ^^ n) (NotStarted s) = Rejected err"
  shows "snd (invoke ctx e t s) = Rejects err"
proof -
  obtain acts fin where inv: "invoke ctx e t s = (acts, fin)"
    by (cases "invoke ctx e t s")
  have "finish fin = Rejected err"
    using assms advance_NotStarted[OF inv, of n] by (auto split: if_splits)
  then have "fin = Rejects err"
    by (cases fin) simp_all
  with inv show ?thesis by simp
qed

lemma raised_origin:
  assumes "settle (run ctx e t sched (launched services)) = Raised err"
  shows "\<exists>j<length services. snd (invoke ctx e t (services ! j)) = Rejects err"
proof -
  let ?st = "run ctx e t sched (launched services)"
  have "rejection ?st = Some err"
    using assms by (auto simp: settle_def split: option.splits if_splits)
  moreover have "rejection_sound ?st"
    by (rule run_rejection_sound[OF launched_rejection_sound])
  ultimately obtain j where j: "j < length (collectors ?st)" "collectors ?st ! j = Rejected err"
    by (auto simp: rejection_sound_def)
  from j(1) have jl: "j < length services"
    by (simp add: run_length launched_simps)
  then have "collectors ?st ! j = (advance ctx e t ^^ count_list sched j) (NotStarted (services ! j))"
    by (simp add: run_collectors_nth launched_simps)
  with j(2) have "snd (invoke ctx e t (services ! j)) = Rejects err"
    using advance_Rejected by metis
  with jl show ?thesis by blast
qed

lemma launched_progress:
  assumes "j < length services"
  shows "acts_by j (trace (run ctx e t sched (launched services))) =
           take (count_list sched j - 1) (fst (invoke ctx e t (services ! j)))"
proof -
  obtain acts fin where inv: "invoke ctx e t (services ! j) = (acts, fin)"
    by (cases "invoke ctx e t (services ! j)")
  show ?thesis
    using assms by (simp add: run_trace_acts launched_simps emitted_NotStarted[OF inv] inv)
qed

lemma launched_finished:
  assumes "j < length services"
    and "invoke ctx e t (services ! j) = (acts, fin)"
    and "length acts + 2 \<le> count_list sched j"
  shows "collectors (run ctx e t sched (launched services)) ! j = finish fin"
  using assms by (simp add: run_collectors_nth launched_simps advance_NotStarted[OF assms(2)])

subsection \<open>The first rejection\<close>

text \<open>
  A collector has rejected within some steps exactly when the run of those steps leaves it
  rejected. Of the collectors that reject in a run one is the first: there is a beginning of
  the run within which it has rejected and no other has. Its error is the one the run keeps,
  whatever rejects later.
\<close>

lemma run_append: "run ctx e t (pre @ rest) st = run ctx e t rest (run ctx e t pre st)"
  by (simp add: run_def)

lemma step_rejection_kept:
  "rejection st = Some err \<Longrightarrow> rejection (step ctx e t i st) = Some err"
  by (auto simp: step_def perform_simps
      split: collector.splits list.splits settlement.splits prod.splits)

lemma run_rejection_kept:
  "rejection st = Some err \<Longrightarrow> rejection (run ctx e t sched st) = Some err"
  by (induction sched arbitrary: st) (simp_all add: run_Nil run_Cons step_rejection_kept)

lemma rejected_within_iff:
  assumes "j < length services"
  shows "rejected_within ctx e t services pre j \<longleftrightarrow>
         (\<exists>err. collectors (run ctx e t pre (launched services)) ! j = Rejected err)"
proof -
  obtain acts fin where inv: "invoke ctx e t (services ! j) = (acts, fin)"
    by (cases "invoke ctx e t (services ! j)")
  have c: "collectors (run ctx e t pre (launched services)) ! j =
             (advance ctx e t ^^ count_list pre j) (NotStarted (services ! j))"
    using assms by (simp add: run_collectors_nth launched_simps)
  show ?thesis
    using assms
    by (cases fin) (auto simp: rejected_within_def inv c advance_NotStarted[OF inv])
qed

lemma rejected_within_error:
  assumes "rejected_within ctx e t services pre j"
    and "snd (invoke ctx e t (services ! j)) = Rejects err"
  shows "collectors (run ctx e t pre (launched services)) ! j = Rejected err"
proof -
  obtain acts where inv: "invoke ctx e t (services ! j) = (acts, Rejects err)"
    using assms(2) by (cases "invoke ctx e t (services ! j)") simp
  have j: "j < length services" and n: "length acts + 2 \<le> count_list pre j"
    using assms(1) by (simp_all add: rejected_within_def inv)
  show ?thesis
    using launched_finished[OF j inv n] by simp
qed

lemma rejected_within_snoc:
  assumes "rejected_within ctx e t services (xs @ [x]) j"
    and "\<not> rejected_within ctx e t services xs j"
  shows "x = j"
proof (rule ccontr)
  assume "x \<noteq> j"
  with assms show False
    by (auto simp: rejected_within_def split: prod.splits settlement.splits)
qed

lemma some_rejection_is_first:
  assumes "rejected_within ctx e t services sched i"
  shows "\<exists>pre rest k. sched = pre @ rest \<and> rejected_within ctx e t services pre k \<and>
           (\<forall>j. j \<noteq> k \<longrightarrow> \<not> rejected_within ctx e t services pre j)"
  using assms
proof (induction sched arbitrary: i rule: rev_induct)
  case Nil
  then show ?case
    by (auto simp: rejected_within_def split: prod.splits settlement.splits)
next
  case (snoc x xs)
  show ?case
  proof (cases "\<exists>j. rejected_within ctx e t services xs j")
    case True
    then obtain j where "rejected_within ctx e t services xs j"
      by blast
    then obtain pre rest k where "xs = pre @ rest" "rejected_within ctx e t services pre k"
      "\<forall>j. j \<noteq> k \<longrightarrow> \<not> rejected_within ctx e t services pre j"
      using snoc.IH by blast
    then have "xs @ [x] = pre @ (rest @ [x]) \<and> rejected_within ctx e t services pre k \<and>
        (\<forall>j. j \<noteq> k \<longrightarrow> \<not> rejected_within ctx e t services pre j)"
      by simp
    then show ?thesis by blast
  next
    case False
    then have "\<not> rejected_within ctx e t services xs i"
      by blast
    then have xi: "x = i"
      by (rule rejected_within_snoc[OF snoc.prems])
    have "\<not> rejected_within ctx e t services (xs @ [x]) j" if ji: "j \<noteq> i" for j
    proof
      assume late: "rejected_within ctx e t services (xs @ [x]) j"
      from False have "\<not> rejected_within ctx e t services xs j"
        by blast
      then have "x = j"
        by (rule rejected_within_snoc[OF late])
      with xi ji show False
        by simp
    qed
    then have "xs @ [x] = (xs @ [x]) @ [] \<and> rejected_within ctx e t services (xs @ [x]) i \<and>
        (\<forall>j. j \<noteq> i \<longrightarrow> \<not> rejected_within ctx e t services (xs @ [x]) j)"
      using snoc.prems by simp
    then show ?thesis by blast
  qed
qed

lemma first_rejection_is_raised:
  assumes first: "rejected_within ctx e t services pre k"
    and alone: "\<forall>j. j \<noteq> k \<longrightarrow> \<not> rejected_within ctx e t services pre j"
    and err: "snd (invoke ctx e t (services ! k)) = Rejects err"
  shows "settle (run ctx e t (pre @ rest) (launched services)) = Raised err"
proof -
  let ?mid = "run ctx e t pre (launched services)"
  have k: "k < length services"
    using first by (simp add: rejected_within_def)
  have len: "length (collectors ?mid) = length services"
    by (simp add: run_length launched_simps)
  have ck: "collectors ?mid ! k = Rejected err"
    by (rule rejected_within_error[OF first err])
  have "rejected_known ?mid"
    by (rule run_rejected_known[OF launched_rejected_known])
  with ck k len obtain kept where kept: "rejection ?mid = Some kept"
    by (auto simp: rejected_known_def)
  have "rejection_sound ?mid"
    by (rule run_rejection_sound[OF launched_rejection_sound])
  with kept obtain j where j: "j < length services" "collectors ?mid ! j = Rejected kept"
    by (auto simp: rejection_sound_def len)
  then have "rejected_within ctx e t services pre j"
    using rejected_within_iff[OF j(1), of ctx e t pre] by blast
  with alone have "j = k"
    by blast
  with j(2) ck have "kept = err"
    by simp
  with kept have "rejection (run ctx e t (pre @ rest) (launched services)) = Some err"
    by (simp add: run_append run_rejection_kept)
  then show ?thesis
    by (simp add: settle_def)
qed

subsection \<open>When the command returns\<close>

text \<open>
  The command returns only with every collector fulfilled; and it does return, with the empty
  list, once every handler resolves and the schedule has let each collector run to its end
  (one step for the call of the mapper, one for each act, one for the promise to settle). By
  then each collector has performed all the acts of its handler, in the handler's order.
\<close>

lemma returned_all_fulfilled:
  assumes "fst (LogsCommand_action ctx args opts sched) = Returned r"
  shows "list_all (\<lambda>c. c = Fulfilled) (collectors (snd (LogsCommand_action ctx args opts sched)))"
proof (cases ctx args opts sched rule: action_cases)
  case (failed err)
  with assms show ?thesis by simp
next
  case (ran e services)
  with assms show ?thesis
    by (auto simp: settle_def split: option.splits if_splits)
qed

lemma all_resolve_returns:
  assumes "select_environment ctx opts = Inr selected"
    and "getEnvironment ctx selected = Inr e"
    and "getServices ctx (service_names args) = Inr services"
    and all_run: "\<forall>j<length services.
           snd (invoke ctx e (opts_tail opts) (services ! j)) = Resolves \<and>
           length (fst (invoke ctx e (opts_tail opts) (services ! j))) + 2 \<le> count_list sched j"
  shows "fst (LogsCommand_action ctx args opts sched) = Returned [] \<and>
         (\<forall>j<length services.
            acts_by j (trace (snd (LogsCommand_action ctx args opts sched))) =
              fst (invoke ctx e (opts_tail opts) (services ! j)))"
proof -
  let ?t = "opts_tail opts"
  let ?st = "run ctx e ?t sched (launched services)"
  have act: "LogsCommand_action ctx args opts sched = (settle ?st, ?st)"
    by (rule action_launched[OF assms(1-3)])
  have ful: "collectors ?st ! j = Fulfilled" if j: "j < length services" for j
  proof -
    obtain acts fin where inv: "invoke ctx e ?t (services ! j) = (acts, fin)"
      by (cases "invoke ctx e ?t (services ! j)")
    with all_run j have "fin = Resolves" "length acts + 2 \<le> count_list sched j"
      by auto
    then show ?thesis
      using launched_finished[OF j inv, of sched] by simp
  qed
  have len: "length (collectors ?st) = length services"
    by (simp add: run_length launched_simps)
  have all: "list_all (\<lambda>c. c = Fulfilled) (collectors ?st)"
    unfolding list_all_length using ful len by simp
  have "rejection ?st = None"
  proof (cases "rejection ?st")
    case None
    then show ?thesis .
  next
    case (Some err)
    moreover have "rejection_sound ?st"
      by (rule run_rejection_sound[OF launched_rejection_sound])
    ultimately obtain j where "j < length (collectors ?st)" "collectors ?st ! j = Rejected err"
      by (auto simp: rejection_sound_def)
    with ful len show ?thesis by auto
  qed
  with all have "settle ?st = Returned (result ?st)"
    by (simp add: settle_def)
  then have first: "fst (LogsCommand_action ctx args opts sched) = Returned []"
    by (simp add: act run_result launched_simps)
  have second: "acts_by j (trace ?st) = fst (invoke ctx e ?t (services ! j))"
    if j: "j < length services" for j
  proof -
    have "length (fst (invoke ctx e ?t (services ! j))) \<le> count_list sched j - 1"
      using all_run j by fastforce
    then show ?thesis
      using launched_progress[OF j, of ctx e ?t sched] by simp
  qed
  show ?thesis
    using first second by (simp add: act)
qed

section \<open>Properties of the logs command\<close>

text \<open>
  Claim C8. Whatever the context, the arguments, the options (tail or not) and the schedule,
  a list returned by \<open>LogsCommand.action\<close> is empty: \<open>result\<close> is allocated and returned
  and nothing is appended to it. The entries received go to the display log only: it holds
  one line for each entry written to the stream whose timestamp is a valid date, in arrival
  order (for an entry with an Invalid Date the callback throws before it logs).
\<close>

theorem action_result_always_empty:
  "(\<forall>r. fst (LogsCommand_action ctx args opts sched) = Returned r \<longrightarrow> r = []) \<and>
   infoLog (snd (LogsCommand_action ctx args opts sched)) =
     map (\<lambda>entry. LogRecord (serviceName entry) [ISO (timestamp entry), White (msg entry)])
       (filter (\<lambda>entry. valid_time (timestamp entry))
          (written (trace (snd (LogsCommand_action ctx args opts sched)))))"
proof (cases ctx args opts sched rule: action_cases)
  case (failed err)
  then show ?thesis by (simp add: initial_def)
next
  case (ran e services)
  have "shown (run ctx e (opts_tail opts) sched (launched services))"
    by (rule run_shown[OF launched_shown])
  moreover have "result (run ctx e (opts_tail opts) sched (launched services)) = []"
    by (simp add: run_result launched_simps)
  ultimately show ?thesis
    using ran by (auto simp: shown_def dest: settle_Returned)
qed

theorem action_result_always_empty_witness:
  "fst (LogsCommand_action (scenario_ctx [svcA, svcE]) all_services no_tail
       [0, 1, 0, 1, 0, 1, 0, 1]) = Returned [] \<and>
   written (trace (snd (LogsCommand_action (scenario_ctx [svcA, svcE]) all_services no_tail
       [0, 1, 0, 1, 0, 1, 0, 1]))) =
     [\<lparr>serviceName = ''A'', timestamp = 1, msg = ''hello''\<rparr>,
      \<lparr>serviceName = ''E'', timestamp = 3, msg = ''kept''\<rparr>,
      \<lparr>serviceName = ''A'', timestamp = 2, msg = ''world''\<rparr>,
      \<lparr>serviceName = ''E'', timestamp = 8640000000000001, msg = ''lost''\<rparr>] \<and>
   infoLog (snd (LogsCommand_action (scenario_ctx [svcA, svcE]) all_services no_tail
       [0, 1, 0, 1, 0, 1, 0, 1])) =
     [LogRecord ''A'' [ISO 1, White ''hello''], LogRecord ''E'' [ISO 3, White ''kept''],
      LogRecord ''A'' [ISO 2, White ''world'']]"
proof -
  let ?a = "LogsCommand_action (scenario_ctx [svcA, svcE]) all_services no_tail
              [0, 1, 0, 1, 0, 1, 0, 1]"
  have r: "fst ?a = Returned (result (snd ?a))"
    by code_simp
  have w: "written (trace (snd ?a)) =
     [\<lparr>serviceName = ''A'', timestamp = 1, msg = ''hello''\<rparr>,
      \<lparr>serviceName = ''E'', timestamp = 3, msg = ''kept''\<rparr>,
      \<lparr>serviceName = ''A'', timestamp = 2, msg = ''world''\<rparr>,
      \<lparr>serviceName = ''E'', timestamp = 8640000000000001, msg = ''lost''\<rparr>]"
    by code_simp
  show ?thesis
    using action_result_always_empty
      [of "scenario_ctx [svcA, svcE]" all_services no_tail "[0, 1, 0, 1, 0, 1, 0, 1]"] r w
    by (simp add: valid_time_def)
qed

text \<open>
  Claim C1, at a failing input. Service \<open>A\<close> alone, its handler writing two entries and
  returning, tail unset, every step of the collector run: the command returns after the
  collector is fulfilled, the two entries were written to the stream, and the returned list is
  empty, where the claim has it hold the two entries.
\<close>

theorem returned_list_drops_entries:
  "fst (LogsCommand_action (scenario_ctx [svcA]) all_services no_tail [0, 0, 0, 0]) = Returned [] \<and>
   collectors (snd (LogsCommand_action (scenario_ctx [svcA]) all_services no_tail [0, 0, 0, 0]))
     = [Fulfilled] \<and>
   written (trace (snd (LogsCommand_action (scenario_ctx [svcA]) all_services no_tail [0, 0, 0, 0])))
     = [\<lparr>serviceName = ''A'', timestamp = 1, msg = ''hello''\<rparr>,
        \<lparr>serviceName = ''A'', timestamp = 2, msg = ''world''\<rparr>]"
  by code_simp

text \<open>
  Claim C2, as stated, fails: with services \<open>A\<close> and \<open>C\<close>, the handler of \<open>C\<close> throwing,
  the command does not report the failure in a result; it throws the handler's error to its
  caller.
\<close>

theorem handler_failure_counterexample:
  "fst (LogsCommand_action (scenario_ctx [svcA, svcC]) all_services no_tail [1, 1, 0, 0, 0, 0])
     = Raised (Thrown ''boom'')"
  by code_simp

text \<open>
  Claim C2, amended. If the handler of one service throws, the error is not caught: once that
  collector has run to its end the command throws to its caller and returns no result, and
  what it throws is the first rejection among the handlers. That is, the run has a beginning
  within which one collector has rejected and no other has, and the command throws the error
  of that collector's handler, whatever rejects afterwards. The sibling collectors are not
  cancelled: what each collector has done to the stream and the logger is the beginning of its
  handler's acts that the schedule has let it perform (one step calls the mapper, each further
  step performs one act), whatever became of the other collectors.
\<close>

theorem handler_failure_is_raised:
  assumes "select_environment ctx opts = Inr selected"
    and "getEnvironment ctx selected = Inr e"
    and "getServices ctx (service_names args) = Inr services"
    and "i < length services"
    and "invoke ctx e (opts_tail opts) (services ! i) = (acts, Rejects err)"
    and "length acts + 2 \<le> count_list sched i"
  shows "(\<exists>pre rest k first.
            sched = pre @ rest \<and>
            rejected_within ctx e (opts_tail opts) services pre k \<and>
            (\<forall>j. j \<noteq> k \<longrightarrow> \<not> rejected_within ctx e (opts_tail opts) services pre j) \<and>
            snd (invoke ctx e (opts_tail opts) (services ! k)) = Rejects first \<and>
            fst (LogsCommand_action ctx args opts sched) = Raised first) \<and>
         (\<forall>j<length services.
            acts_by j (trace (snd (LogsCommand_action ctx args opts sched))) =
              take (count_list sched j - 1) (fst (invoke ctx e (opts_tail opts) (services ! j))))"
proof -
  let ?t = "opts_tail opts"
  let ?st = "run ctx e ?t sched (launched services)"
  have act: "LogsCommand_action ctx args opts sched = (settle ?st, ?st)"
    by (rule action_launched[OF assms(1-3)])
  have "rejected_within ctx e ?t services sched i"
    using assms(4-6) by (simp add: rejected_within_def)
  then obtain pre rest k where split: "sched = pre @ rest"
    and k: "rejected_within ctx e ?t services pre k"
    and alone: "\<forall>j. j \<noteq> k \<longrightarrow> \<not> rejected_within ctx e ?t services pre j"
    using some_rejection_is_first[of ctx e ?t services sched i] by blast
  from k obtain first where first: "snd (invoke ctx e ?t (services ! k)) = Rejects first"
    by (auto simp: rejected_within_def split: prod.splits settlement.splits)
  have "settle ?st = Raised first"
    unfolding split by (rule first_rejection_is_raised[OF k alone first])
  then have "fst (LogsCommand_action ctx args opts sched) = Raised first"
    by (simp add: act)
  with split k alone first have one: "\<exists>pre rest k first.
            sched = pre @ rest \<and>
            rejected_within ctx e ?t services pre k \<and>
            (\<forall>j. j \<noteq> k \<longrightarrow> \<not> rejected_within ctx e ?t services pre j) \<and>
            snd (invoke ctx e ?t (services ! k)) = Rejects first \<and>
            fst (LogsCommand_action ctx args opts sched) = Raised first"
    by blast
  have two: "\<forall>j<length services.
            acts_by j (trace (snd (LogsCommand_action ctx args opts sched))) =
              take (count_list sched j - 1) (fst (invoke ctx e ?t (services ! j)))"
    by (simp add: act launched_progress)
  show ?thesis using one two by blast
qed

theorem handler_failure_is_raised_witness:
  "select_environment (scenario_ctx [svcC, svcD]) no_tail = Inr (Some ''local'') \<and>
   getEnvironment (scenario_ctx [svcC, svcD]) (Some ''local'') = Inr () \<and>
   getServices (scenario_ctx [svcC, svcD]) (service_names all_services) = Inr [svcC, svcD] \<and>
   (0::nat) < length [svcC, svcD] \<and>
   invoke (scenario_ctx [svcC, svcD]) () (opts_tail no_tail) ([svcC, svcD] ! 0)
     = ([], Rejects (Thrown ''boom'')) \<and>
   length ([] :: act list) + 2 \<le> count_list [1, 1, 1, 0, 0] (0::nat) \<and>
   [1, 1, 1, 0, 0] = [1, 1, 1] @ [0, 0 :: nat] \<and>
   rejected_within (scenario_ctx [svcC, svcD]) () (opts_tail no_tail) [svcC, svcD] [1, 1, 1] 1 \<and>
   \<not> rejected_within (scenario_ctx [svcC, svcD]) () (opts_tail no_tail) [svcC, svcD] [1, 1, 1] 0 \<and>
   fst (LogsCommand_action (scenario_ctx [svcC, svcD]) all_services no_tail [1, 1, 1, 0, 0])
     = Raised (Thrown ''bang'') \<and>
   acts_by 1 (trace (snd (LogsCommand_action (scenario_ctx [svcC, svcD]) all_services no_tail
       [1, 1, 1, 0, 0]))) =
     [Write \<lparr>serviceName = ''D'', timestamp = 5, msg = ''last words''\<rparr>]"
proof -
  let ?c = "scenario_ctx [svcC, svcD]"
  let ?a = "LogsCommand_action ?c all_services no_tail [1, 1, 1, 0, 0]"
  have h1: "select_environment ?c no_tail = Inr (Some ''local'')"
    by code_simp
  have h2: "getEnvironment ?c (Some ''local'') = Inr ()"
    by code_simp
  have h3: "getServices ?c (service_names all_services) = Inr [svcC, svcD]"
    by code_simp
  have h4: "(0::nat) < length [svcC, svcD]"
    by simp
  have h5: "invoke ?c () (opts_tail no_tail) ([svcC, svcD] ! 0) = ([], Rejects (Thrown ''boom''))"
    by code_simp
  have h6: "length ([] :: act list) + 2 \<le> count_list [1, 1, 1, 0, 0] (0::nat)"
    by simp
  have p: "[1, 1, 1, 0, 0] = [1, 1, 1] @ [0, 0 :: nat]"
    by simp
  have r1: "rejected_within ?c () (opts_tail no_tail) [svcC, svcD] [1, 1, 1] 1"
    by code_simp
  have r0: "\<not> rejected_within ?c () (opts_tail no_tail) [svcC, svcD] [1, 1, 1] 0"
    by code_simp
  have d: "snd (invoke ?c () (opts_tail no_tail) ([svcC, svcD] ! 1)) = Rejects (Thrown ''bang'')"
    by code_simp
  have a: "take (count_list [1, 1, 1, 0, 0] (1::nat) - 1)
             (fst (invoke ?c () (opts_tail no_tail) ([svcC, svcD] ! 1))) =
           [Write \<lparr>serviceName = ''D'', timestamp = 5, msg = ''last words''\<rparr>]"
    by code_simp
  note w = handler_failure_is_raised [OF h1 h2 h3 h4 h5 h6]
  from w obtain pre rest k first where
      split: "[1, 1, 1, 0, 0] = pre @ rest"
      and k: "rejected_within ?c () (opts_tail no_tail) [svcC, svcD] pre k"
      and alone: "\<forall>j. j \<noteq> k \<longrightarrow> \<not> rejected_within ?c () (opts_tail no_tail) [svcC, svcD] pre j"
      and first: "snd (invoke ?c () (opts_tail no_tail) ([svcC, svcD] ! k)) = Rejects first"
      and raised: "fst ?a = Raised first"
    by blast
  have out: "fst ?a = Raised (Thrown ''bang'')"
    by code_simp
  from w have "acts_by 1 (trace (snd ?a)) =
     take (count_list [1, 1, 1, 0, 0] (1::nat) - 1)
       (fst (invoke ?c () (opts_tail no_tail) ([svcC, svcD] ! 1)))"
    by simp
  then have b: "acts_by 1 (trace (snd ?a)) =
      [Write \<lparr>serviceName = ''D'', timestamp = 5, msg = ''last words''\<rparr>]"
    using a by (rule trans)
  show ?thesis
    by (intro conjI h1 h2 h3 h4 h5 h6 p r1 r0 out b)
qed

text \<open>
  Claim C3. A service whose module type has no registered \<open>getServiceLogs\<close> handler gets the
  fallback handler \<open>dummyLogStreamer\<close>. Under every schedule that collector writes no entry
  to the stream; once it has run (the mapper called, then one step) it has logged exactly
  one warning, whose section is the service's name and whose message names the module type; it
  then fulfils, and if the command throws at all, the error is the rejection of another
  service's handler.
\<close>

theorem fallback_for_unregistered_kind:
  assumes "select_environment ctx opts = Inr selected"
    and "getEnvironment ctx selected = Inr e"
    and "getServices ctx (service_names args) = Inr services"
    and "i < length services"
    and "actionHandlers ctx ''getServiceLogs'' (module_type (services ! i)) = None"
  shows "getActionHandler ctx ''getServiceLogs'' (module_type (services ! i)) dummyLogStreamer
           = dummyLogStreamer \<and>
         acts_by i (trace (snd (LogsCommand_action ctx args opts sched))) =
           (if 2 \<le> count_list sched i
            then [Warn (LogRecord (name (services ! i))
                    [Yellow (''No handler for log retrieval available for module type '' @
                             module_type (services ! i))])]
            else []) \<and>
         (3 \<le> count_list sched i \<longrightarrow>
            collectors (snd (LogsCommand_action ctx args opts sched)) ! i = Fulfilled) \<and>
         (\<forall>err. fst (LogsCommand_action ctx args opts sched) = Raised err \<longrightarrow>
            (\<exists>j<length services. j \<noteq> i \<and>
               snd (invoke ctx e (opts_tail opts) (services ! j)) = Rejects err))"
proof -
  let ?t = "opts_tail opts"
  let ?d = "Warn (LogRecord (name (services ! i))
              [Yellow (''No handler for log retrieval available for module type '' @
                       module_type (services ! i))])"
  have h: "getActionHandler ctx ''getServiceLogs'' (module_type (services ! i)) dummyLogStreamer
             = dummyLogStreamer"
    using assms(5) by (simp add: getActionHandler_def)
  then have inv: "invoke ctx e ?t (services ! i) = ([?d], Resolves)"
    by (simp add: invoke_def dummyLogStreamer_def)
  have act: "LogsCommand_action ctx args opts sched =
           (settle (run ctx e ?t sched (launched services)), run ctx e ?t sched (launched services))"
    by (rule action_launched[OF assms(1-3)])
  have a: "acts_by i (trace (run ctx e ?t sched (launched services))) =
             (if 2 \<le> count_list sched i then [?d] else [])"
    using launched_progress[OF assms(4), of ctx e ?t sched] by (simp add: inv)
  have b: "3 \<le> count_list sched i \<longrightarrow>
             collectors (run ctx e ?t sched (launched services)) ! i = Fulfilled"
    using launched_finished[OF assms(4) inv, of sched] by simp
  have c: "\<exists>j<length services. j \<noteq> i \<and> snd (invoke ctx e ?t (services ! j)) = Rejects err"
    if r: "settle (run ctx e ?t sched (launched services)) = Raised err" for err
  proof -
    obtain j where j: "j < length services" "snd (invoke ctx e ?t (services ! j)) = Rejects err"
      using raised_origin[OF r] by blast
    then have "j \<noteq> i" using inv by auto
    with j show ?thesis by blast
  qed
  show ?thesis
    using h a b c by (simp add: act)
qed

theorem fallback_for_unregistered_kind_witness:
  "select_environment (scenario_ctx [svcA, svcB]) no_tail = Inr (Some ''local'') \<and>
   getEnvironment (scenario_ctx [svcA, svcB]) (Some ''local'') = Inr () \<and>
   getServices (scenario_ctx [svcA, svcB]) (service_names all_services) = Inr [svcA, svcB] \<and>
   (1::nat) < length [svcA, svcB] \<and>
   actionHandlers (scenario_ctx [svcA, svcB]) ''getServiceLogs'' (module_type ([svcA, svcB] ! 1))
     = None \<and>
   acts_by 1 (trace (snd (LogsCommand_action (scenario_ctx [svcA, svcB]) all_services no_tail
       [0, 1, 0, 1, 0, 1, 0]))) =
     [Warn (LogRecord ''B''
        [Yellow ''No handler for log retrieval available for module type kindY''])] \<and>
   collectors (snd (LogsCommand_action (scenario_ctx [svcA, svcB]) all_services no_tail
       [0, 1, 0, 1, 0, 1, 0])) ! 1 = Fulfilled"
proof -
  let ?c = "scenario_ctx [svcA, svcB]"
  have h1: "select_environment ?c no_tail = Inr (Some ''local'')"
    by code_simp
  have h2: "getEnvironment ?c (Some ''local'') = Inr ()"
    by code_simp
  have h3: "getServices ?c (service_names all_services) = Inr [svcA, svcB]"
    by code_simp
  have h4: "(1::nat) < length [svcA, svcB]"
    by simp
  have h5: "actionHandlers ?c ''getServiceLogs'' (module_type ([svcA, svcB] ! 1)) = None"
    by code_simp
  have n: "name svcB = ''B''" "module_type svcB = ''kindY''"
    by (simp_all add: svcB_def)
  have k: "count_list [0, 1, 0, 1, 0, 1, 0] (1::nat) = 3"
    by simp
  show ?thesis
    using fallback_for_unregistered_kind [OF h1 h2 h3 h4 h5, of "[0, 1, 0, 1, 0, 1, 0]"]
      h1 h2 h3 h4 h5
    by (simp add: n k)
qed

text \<open>
  Claim C4. In every run the consumer callback is attached before any mapper is called: no
  event of the run precedes the attachment (a run that fails earlier has no event at all), and
  no entry is ever written to a stream without a reader.
\<close>

theorem consumer_registered_first:
  "takeWhile (\<lambda>ev. ev \<noteq> Subscribed) (trace (snd (LogsCommand_action ctx args opts sched))) = [] \<and>
   unread (snd (LogsCommand_action ctx args opts sched)) = []"
proof (cases ctx args opts sched rule: action_cases)
  case (failed err)
  then show ?thesis by (simp add: initial_def)
next
  case (ran e services)
  obtain evs where "trace (run ctx e (opts_tail opts) sched (launched services)) = Subscribed # evs"
    using run_trace_head[of ctx e "opts_tail opts" sched "launched services"]
    by (auto simp: launched_simps)
  moreover have "unread (run ctx e (opts_tail opts) sched (launched services)) = []"
    by (simp add: run_unread launched_simps)
  ultimately show ?thesis using ran by simp
qed

theorem consumer_registered_first_witness:
  "takeWhile (\<lambda>ev. ev \<noteq> Subscribed)
     (trace (snd (LogsCommand_action (scenario_ctx [svcA, svcB]) all_services no_tail
        [0, 1, 0, 1, 0, 1, 0]))) = [] \<and>
   unread (snd (LogsCommand_action (scenario_ctx [svcA, svcB]) all_services no_tail
        [0, 1, 0, 1, 0, 1, 0])) = [] \<and>
   hd (trace (snd (LogsCommand_action (scenario_ctx [svcA, svcB]) all_services no_tail
        [0, 1, 0, 1, 0, 1, 0]))) = Subscribed"
proof -
  let ?a = "LogsCommand_action (scenario_ctx [svcA, svcB]) all_services no_tail [0, 1, 0, 1, 0, 1, 0]"
  have h: "hd (trace (snd ?a)) = Subscribed"
    by code_simp
  show ?thesis
    using consumer_registered_first
      [of "scenario_ctx [svcA, svcB]" all_services no_tail "[0, 1, 0, 1, 0, 1, 0]"] h
    by simp
qed

text \<open>
  Claim C5. If \<open>getServices\<close> throws, the command throws before anything is started: the
  state is the initial one (no stream consumer, no mapper called, nothing written, nothing
  logged), and the error thrown is that of \<open>getServices\<close> whenever the environment was
  selected without error.
\<close>

theorem resolution_failure_aborts:
  assumes "getServices ctx (service_names args) = Inl err"
  shows "(\<exists>err'. fst (LogsCommand_action ctx args opts sched) = Raised err') \<and>
         snd (LogsCommand_action ctx args opts sched) = initial \<and>
         (\<forall>selected e. select_environment ctx opts = Inr selected \<longrightarrow>
            getEnvironment ctx selected = Inr e \<longrightarrow>
            fst (LogsCommand_action ctx args opts sched) = Raised err)"
  using assms by (auto simp: LogsCommand_action_def split: sum.splits)

theorem resolution_failure_aborts_witness:
  "getServices (scenario_ctx [svcA, svcB]) (service_names \<lparr>args_service = Some ''A,Q''\<rparr>)
     = Inl (Thrown ''unknown service'') \<and>
   fst (LogsCommand_action (scenario_ctx [svcA, svcB]) \<lparr>args_service = Some ''A,Q''\<rparr> no_tail
     [0, 1, 0, 1]) = Raised (Thrown ''unknown service'') \<and>
   snd (LogsCommand_action (scenario_ctx [svcA, svcB]) \<lparr>args_service = Some ''A,Q''\<rparr> no_tail
     [0, 1, 0, 1]) = initial"
proof -
  let ?c = "scenario_ctx [svcA, svcB]"
  have h: "getServices ?c (service_names \<lparr>args_service = Some ''A,Q''\<rparr>)
             = Inl (Thrown ''unknown service'')"
    by code_simp
  have h1: "select_environment ?c no_tail = Inr (Some ''local'')"
    by code_simp
  have h2: "getEnvironment ?c (Some ''local'') = Inr ()"
    by code_simp
  show ?thesis
    using resolution_failure_aborts [OF h, of no_tail "[0, 1, 0, 1]"] h h1 h2
    by simp
qed

text \<open>
  Claim C6, as stated, fails: with no service resolved the stream is not closed. The only
  thing that happens to the stream is that the consumer is attached.
\<close>

theorem zero_services_counterexample:
  "Ended \<notin> set (trace (snd (LogsCommand_action (scenario_ctx []) all_services no_tail [])))"
  by code_simp

text \<open>
  Claim C6, amended. If service resolution yields no service, the command returns the empty
  list at once, under every schedule, with no mapper called; the stream is left open with its
  consumer attached.
\<close>

theorem zero_services_returns_empty:
  assumes "select_environment ctx opts = Inr selected"
    and "getEnvironment ctx selected = Inr e"
    and "getServices ctx (service_names args) = Inr []"
  shows "LogsCommand_action ctx args opts sched =
           (Returned [], initial\<lparr>reader := True, trace := [Subscribed]\<rparr>)"
proof -
  have "run ctx e (opts_tail opts) sched (launched []) = launched []"
    by (rule run_no_collectors) (simp add: launched_simps)
  then show ?thesis
    using action_launched[OF assms, of sched]
    by (simp add: settle_def launched_def initial_def)
qed

theorem zero_services_returns_empty_witness:
  "select_environment (scenario_ctx []) no_tail = Inr (Some ''local'') \<and>
   getEnvironment (scenario_ctx []) (Some ''local'') = Inr () \<and>
   getServices (scenario_ctx []) (service_names all_services) = Inr [] \<and>
   LogsCommand_action (scenario_ctx []) all_services no_tail [0, 1] =
     (Returned [], initial\<lparr>reader := True, trace := [Subscribed]\<rparr>)"
proof -
  have h1: "select_environment (scenario_ctx []) no_tail = Inr (Some ''local'')"
    by code_simp
  have h2: "getEnvironment (scenario_ctx []) (Some ''local'') = Inr ()"
    by code_simp
  have h3: "getServices (scenario_ctx []) (service_names all_services) = Inr []"
    by code_simp
  show ?thesis
    using zero_services_returns_empty [OF h1 h2 h3, of "[0, 1]"] h1 h2 h3
    by simp
qed

section \<open>Properties of the users list command\<close>

text \<open>
  The loop ends when the API comes to an empty page after pages that are not empty, and gives
  the users it had, followed by those fetched.
\<close>

lemma fetchUsers_returns:
  assumes "get (page + n) = Inr []"
    and "\<forall>k<n. \<exists>data. get (page + k) = Inr data \<and> data \<noteq> []"
  shows "\<exists>fetched. fetchUsers get mk page users = Some (Inr (users @ fetched))"
  using assms
proof (induction n arbitrary: page users)
  case 0
  then show ?case
    by (subst fetchUsers.simps) simp
next
  case (Suc n)
  from Suc.prems(2) obtain data where d: "get page = Inr data" "data \<noteq> []"
    by force
  have "get (Suc page + n) = Inr []"
    using Suc.prems(1) by simp
  moreover have "\<forall>k<n. \<exists>data. get (Suc page + k) = Inr data \<and> data \<noteq> []"
    using Suc.prems(2) by (metis Suc_less_eq add_Suc_shift)
  ultimately obtain fetched where
    "fetchUsers get mk (Suc page) (users @ map mk data) = Some (Inr ((users @ map mk data) @ fetched))"
    using Suc.IH by blast
  then have "fetchUsers get mk page users = Some (Inr (users @ (map mk data @ fetched)))"
    using d by (subst fetchUsers.simps) simp
  then show ?case by blast
qed

lemma sorted_filter_users: "sorted (map user_name (filter_users h opts users))"
  by (simp add: filter_users_def sorted_filter)

lemma set_filter_users:
  "set (filter_users h opts users) =
     {u \<in> set users. applyFilter h (nameFilter opts) (Single (user_name u)) \<and>
        applyFilter h (groupFilter opts) (Many (map group_name (groups u)))}"
  by (auto simp: filter_users_def)

lemma action_result:
  assumes "UsersListCommand_action h garden opts = Some (Inr res)"
  obtains api users where "cloudApi garden = Some api"
    and "fetchUsers (get_users_page api) (makeUserFromResponse h) 0 [] = Some (Inr users)"
    and "res = filter_users h opts users"
proof -
  from assms obtain api where api: "cloudApi garden = Some api"
    by (auto simp: UsersListCommand_action_def split: option.splits)
  from assms api obtain users where
    users: "fetchUsers (get_users_page api) (makeUserFromResponse h) 0 [] = Some (Inr users)"
    by (auto simp: UsersListCommand_action_def split: option.splits sum.splits)
  have "res = filter_users h opts users"
  proof (cases "users = []")
    case True
    then show ?thesis using assms api users
      by (auto simp: UsersListCommand_action_def filter_users_def split: option.splits sum.splits)
  next
    case False
    then show ?thesis using assms api users
      by (auto simp: UsersListCommand_action_def Let_def split: option.splits sum.splits if_splits)
  qed
  with api users that show thesis by blast
qed

text \<open>
  Claim C10. When \<open>UsersListCommand.action\<close> returns a list, every user in it passes the
  name filter and the group filter, the list is sorted by user name, and if none of the users
  fetched passes both filters the list is empty.
\<close>

theorem users_list_filtered_sorted:
  assumes "UsersListCommand_action h garden opts = Some (Inr res)"
  shows "(\<forall>u \<in> set res.
            applyFilter h (nameFilter opts) (Single (user_name u)) \<and>
            applyFilter h (groupFilter opts) (Many (map group_name (groups u)))) \<and>
         sorted (map user_name res) \<and>
         (\<forall>api users.
            cloudApi garden = Some api \<longrightarrow>
            fetchUsers (get_users_page api) (makeUserFromResponse h) 0 [] = Some (Inr users) \<longrightarrow>
            (\<forall>u \<in> set users.
               \<not> (applyFilter h (nameFilter opts) (Single (user_name u)) \<and>
                  applyFilter h (groupFilter opts) (Many (map group_name (groups u))))) \<longrightarrow>
            res = [])"
proof -
  obtain api users where api: "cloudApi garden = Some api"
    and users: "fetchUsers (get_users_page api) (makeUserFromResponse h) 0 [] = Some (Inr users)"
    and res: "res = filter_users h opts users"
    using action_result[OF assms] by blast
  have a: "\<forall>u \<in> set res.
            applyFilter h (nameFilter opts) (Single (user_name u)) \<and>
            applyFilter h (groupFilter opts) (Many (map group_name (groups u)))"
    by (simp add: res set_filter_users)
  have b: "sorted (map user_name res)"
    by (simp add: res sorted_filter_users)
  have c: "res = []"
    if "cloudApi garden = Some api'"
      and "fetchUsers (get_users_page api') (makeUserFromResponse h) 0 [] = Some (Inr users')"
      and none: "\<forall>u \<in> set users'.
               \<not> (applyFilter h (nameFilter opts) (Single (user_name u)) \<and>
                  applyFilter h (groupFilter opts) (Many (map group_name (groups u))))"
    for api' users'
  proof -
    have "api' = api" using that(1) api by simp
    then have "users' = users" using that(2) users by simp
    then have "set (filter_users h opts users) = {}"
      using none by (auto simp: set_filter_users)
    then show ?thesis by (simp add: res)
  qed
  show ?thesis using a b c by blast
qed

theorem users_list_filtered_sorted_witness:
  "UsersListCommand_action exact_helpers demo_garden devs_only =
     Some (Inr [user 2 ''Ann'' [''devs''], user 3 ''Zoe'' [''devs'']]) \<and>
   applyFilter exact_helpers (nameFilter devs_only)
     (Single (user_name (user 2 ''Ann'' [''devs'']))) \<and>
   applyFilter exact_helpers (groupFilter devs_only)
     (Many (map group_name (groups (user 2 ''Ann'' [''devs''])))) \<and>
   applyFilter exact_helpers (nameFilter devs_only)
     (Single (user_name (user 3 ''Zoe'' [''devs'']))) \<and>
   applyFilter exact_helpers (groupFilter devs_only)
     (Many (map group_name (groups (user 3 ''Zoe'' [''devs''])))) \<and>
   sorted (map user_name [user 2 ''Ann'' [''devs''], user 3 ''Zoe'' [''devs'']])"
proof -
  have h: "UsersListCommand_action exact_helpers demo_garden devs_only =
     Some (Inr [user 2 ''Ann'' [''devs''], user 3 ''Zoe'' [''devs'']])"
    by code_simp
  show ?thesis
    using users_list_filtered_sorted [OF h] h
    by simp
qed

section \<open>Properties of the debug logfiles\<close>

lemma kept_or_expired_refl: "kept_or_expired sys d fs st (st\<lparr>failure := x\<rparr>)"
  by (simp add: kept_or_expired_def)

lemma cleanup_file_step:
  assumes "kept_or_expired sys d fs st cur" and "f \<in> set fs"
  shows "kept_or_expired sys d fs st (cleanup_file sys d f cur)"
  unfolding kept_or_expired_def
proof
  fix p
  let ?next = "cleanup_file sys d f cur"
  let ?path = "path_join sys d f"
  have old: "files cur q = files st q \<or>
      (files cur q = None \<and> (\<exists>f \<in> set fs. deletable sys d st f q))" for q
    using assms(1) by (simp add: kept_or_expired_def)
  show "files ?next p = files st p \<or>
      (files ?next p = None \<and> (\<exists>f \<in> set fs. deletable sys d st f p))"
  proof (cases "files ?next p = files cur p")
    case True
    with old[of p] show ?thesis by simp
  next
    case False
    then have m: "matches_debug f \<or> matches_json f"
      and p: "p = ?path \<or> inside sys ?path p"
      and gone: "files ?next p = None"
      by (auto simp: cleanup_file_def remove_def Let_def split: option.splits if_splits)
    from False obtain b where b: "files cur ?path = Some b"
      "moment_add_days sys logfileExpiryDays b < moment_now sys f"
      by (auto simp: cleanup_file_def remove_def Let_def split: option.splits if_splits)
    from b(1) old[of ?path] have "files st ?path = Some b" by auto
    with m p b(2) have "deletable sys d st f p"
      by (auto simp: deletable_def logfileExpiryDays_def)
    with gone assms(2) show ?thesis by blast
  qed
qed

lemma cleanup_fold:
  assumes "kept_or_expired sys d fs st cur" and "set gs \<subseteq> set fs"
  shows "kept_or_expired sys d fs st (fold (cleanup_file sys d) gs cur)"
  using assms
proof (induction gs arbitrary: cur)
  case Nil
  then show ?case by simp
next
  case (Cons g gs)
  then show ?case by (simp add: cleanup_file_step)
qed

text \<open>What the two patterns accept, said without the search.\<close>

lemma dot_star_then_iff:
  "dot_star_then l2 s \<longleftrightarrow> (\<exists>m b. s = m @ l2 @ b \<and> (\<forall>c \<in> set m. \<not> isLineTerminator c))"
proof (induction s)
  case Nil
  then show ?case by (auto simp: prefix_def)
next
  case (Cons c cs)
  show ?case
  proof
    assume "dot_star_then l2 (c # cs)"
    then consider "prefix l2 (c # cs)" | "\<not> isLineTerminator c" "dot_star_then l2 cs" by auto
    then show "\<exists>m b. c # cs = m @ l2 @ b \<and> (\<forall>c \<in> set m. \<not> isLineTerminator c)"
    proof cases
      case 1
      then obtain b where "c # cs = l2 @ b" by (auto simp: prefix_def)
      then have "c # cs = [] @ l2 @ b \<and> (\<forall>c \<in> set ([]::string). \<not> isLineTerminator c)" by simp
      then show ?thesis by blast
    next
      case 2
      then obtain m b where "cs = m @ l2 @ b" "\<forall>c \<in> set m. \<not> isLineTerminator c"
        using Cons.IH by auto
      with 2(1) have "c # cs = (c # m) @ l2 @ b \<and> (\<forall>x \<in> set (c # m). \<not> isLineTerminator x)"
        by simp
      then show ?thesis by blast
    qed
  next
    assume "\<exists>m b. c # cs = m @ l2 @ b \<and> (\<forall>c \<in> set m. \<not> isLineTerminator c)"
    then obtain m b where mb: "c # cs = m @ l2 @ b" "\<forall>c \<in> set m. \<not> isLineTerminator c" by blast
    show "dot_star_then l2 (c # cs)"
    proof (cases m)
      case Nil
      with mb(1) have "prefix l2 (c # cs)" by (simp add: prefix_def)
      then show ?thesis by simp
    next
      case (Cons x m')
      with mb have "x = c" "cs = m' @ l2 @ b" "\<not> isLineTerminator c" "\<forall>c \<in> set m'. \<not> isLineTerminator c"
        by auto
      then show ?thesis using Cons.IH by auto
    qed
  qed
qed

lemma match_here:
  "(prefix l1 s \<and> dot_star_then l2 (drop (length l1) s)) \<longleftrightarrow>
     (\<exists>m b. s = l1 @ m @ l2 @ b \<and> (\<forall>c \<in> set m. \<not> isLineTerminator c))"
proof
  assume l: "prefix l1 s \<and> dot_star_then l2 (drop (length l1) s)"
  then obtain r where r: "s = l1 @ r"
    by (auto simp: prefix_def)
  with l have "dot_star_then l2 r"
    by simp
  then obtain m b where "r = m @ l2 @ b" "\<forall>c \<in> set m. \<not> isLineTerminator c"
    using dot_star_then_iff[of l2 r] by blast
  with r show "\<exists>m b. s = l1 @ m @ l2 @ b \<and> (\<forall>c \<in> set m. \<not> isLineTerminator c)"
    by blast
next
  assume "\<exists>m b. s = l1 @ m @ l2 @ b \<and> (\<forall>c \<in> set m. \<not> isLineTerminator c)"
  then obtain m b where mb: "s = l1 @ m @ l2 @ b" "\<forall>c \<in> set m. \<not> isLineTerminator c"
    by blast
  then have "dot_star_then l2 (m @ l2 @ b)"
    using dot_star_then_iff[of l2 "m @ l2 @ b"] by blast
  with mb(1) show "prefix l1 s \<and> dot_star_then l2 (drop (length l1) s)"
    by simp
qed

lemma regex_search_iff:
  "regex_search l1 l2 s \<longleftrightarrow>
     (\<exists>a m b. s = a @ l1 @ m @ l2 @ b \<and> (\<forall>c \<in> set m. \<not> isLineTerminator c))"
proof (induction s)
  case Nil
  then show ?case using match_here[of l1 "[]" l2] by auto
next
  case (Cons c cs)
  have here: "(prefix l1 (c # cs) \<and> dot_star_then l2 (drop (length l1) (c # cs))) \<longleftrightarrow>
      (\<exists>m b. c # cs = l1 @ m @ l2 @ b \<and> (\<forall>c \<in> set m. \<not> isLineTerminator c))"
    by (rule match_here)
  show ?case
  proof
    assume "regex_search l1 l2 (c # cs)"
    then consider "prefix l1 (c # cs) \<and> dot_star_then l2 (drop (length l1) (c # cs))"
      | "regex_search l1 l2 cs" by auto
    then show "\<exists>a m b. c # cs = a @ l1 @ m @ l2 @ b \<and> (\<forall>c \<in> set m. \<not> isLineTerminator c)"
    proof cases
      case 1
      then obtain m b where "c # cs = [] @ l1 @ m @ l2 @ b" "\<forall>c \<in> set m. \<not> isLineTerminator c"
        using here by auto
      then show ?thesis by blast
    next
      case 2
      then obtain a m b where "cs = a @ l1 @ m @ l2 @ b" "\<forall>c \<in> set m. \<not> isLineTerminator c"
        using Cons.IH by auto
      then have "c # cs = (c # a) @ l1 @ m @ l2 @ b \<and> (\<forall>c \<in> set m. \<not> isLineTerminator c)"
        by simp
      then show ?thesis by blast
    qed
  next
    assume "\<exists>a m b. c # cs = a @ l1 @ m @ l2 @ b \<and> (\<forall>c \<in> set m. \<not> isLineTerminator c)"
    then obtain a m b where amb: "c # cs = a @ l1 @ m @ l2 @ b"
      "\<forall>c \<in> set m. \<not> isLineTerminator c" by blast
    show "regex_search l1 l2 (c # cs)"
    proof (cases a)
      case Nil
      with amb have "prefix l1 (c # cs) \<and> dot_star_then l2 (drop (length l1) (c # cs))"
        using here by auto
      then show ?thesis by simp
    next
      case (Cons x a')
      with amb have "cs = a' @ l1 @ m @ l2 @ b" by simp
      with amb(2) have "regex_search l1 l2 cs" using Cons.IH by blast
      then show ?thesis by simp
    qed
  qed
qed

text \<open>
  Claim C7, as stated, fails, in two ways. The logs directory holds a directory
  \<open>debug-dir.log\<close> born more than seven days ago, and in it a recent file \<open>keep.txt\<close>. That
  file's name matches neither pattern and its birth time is not more than seven days back, and
  yet it is deleted: the directory matches and has expired, and \<open>remove\<close> takes it away with
  all it holds. And the retention window is not a fixed one: where the clocks went forward
  during the seven days, a matching file is deleted half an hour before it is seven times
  twenty-four hours old.
\<close>

theorem other_files_deleted_counterexample:
  "files demo_files ''logs/debug-dir.log/keep.txt'' = Some 999999999 \<and>
   files (snd (prepareDebugLogfiles demo_env ''logs'' ''deploy my service'' demo_files))
     ''logs/debug-dir.log/keep.txt'' = None \<and>
   \<not> matches_debug ''keep.txt'' \<and>
   \<not> matches_json ''keep.txt'' \<and>
   \<not> moment_add_days demo_env 7 999999999 < moment_now demo_env ''keep.txt'' \<and>
   files dst_files ''logs/debug.log'' = Some 1772730000000 \<and>
   files (snd (prepareDebugLogfiles dst_env ''logs'' ''deploy'' dst_files)) ''logs/debug.log''
     = None \<and>
   \<not> 1772730000000 + 7 * 86400000 < moment_now dst_env ''debug.log''"
  by code_simp

text \<open>
  Claim C7, amended. After \<open>prepareDebugLogfiles\<close> every entry of the file system is as it
  was, or it has been removed, and then it is an entry of the logs directory whose name matches
  \<open>/debug.*\.log/\<close> or \<open>/json.*\.log/\<close> and for which \<open>moment(birthtime).add(7, "days")\<close>,
  seven calendar days after its birth time in local time, is before the time read for it, or it
  lies inside such an entry (a directory is removed with everything inside it).
\<close>

theorem only_expired_logfiles_deleted:
  "files (snd (prepareDebugLogfiles sys logsDirPath commandFullName st)) p = files st p \<or>
   (files (snd (prepareDebugLogfiles sys logsDirPath commandFullName st)) p = None \<and>
    (\<exists>filename birthtime.
       (matches_debug filename \<or> matches_json filename) \<and>
       files st (path_join sys logsDirPath filename) = Some birthtime \<and>
       moment_add_days sys 7 birthtime < moment_now sys filename \<and>
       (p = path_join sys logsDirPath filename \<or>
        inside sys (path_join sys logsDirPath filename) p)))"
proof -
  have k: "kept_or_expired sys logsDirPath fs st
             (fold (cleanup_file sys logsDirPath) fs (st\<lparr>failure := None\<rparr>))" for fs
    by (rule cleanup_fold[OF kept_or_expired_refl]) simp
  have "\<exists>fs. kept_or_expired sys logsDirPath fs st
          (snd (prepareDebugLogfiles sys logsDirPath commandFullName st))"
  proof (cases "pathExists sys logsDirPath")
    case False
    then show ?thesis
      using kept_or_expired_refl[of sys logsDirPath "[]" st "failure st"]
      by (auto simp: prepareDebugLogfiles_def kept_or_expired_def)
  next
    case True
    show ?thesis
    proof (cases "listDirectory sys logsDirPath")
      case (Inl err)
      with True show ?thesis
        by (auto simp: prepareDebugLogfiles_def kept_or_expired_def)
    next
      case (Inr fs)
      with True k[of fs] show ?thesis
        by (auto simp: prepareDebugLogfiles_def kept_or_expired_def Let_def split: option.splits)
    qed
  qed
  then obtain fs where "files (snd (prepareDebugLogfiles sys logsDirPath commandFullName st)) p
        = files st p \<or>
      (files (snd (prepareDebugLogfiles sys logsDirPath commandFullName st)) p = None \<and>
       (\<exists>f \<in> set fs. deletable sys logsDirPath st f p))"
    unfolding kept_or_expired_def by blast
  then show ?thesis
    unfolding deletable_def by blast
qed

theorem only_expired_logfiles_deleted_witness:
  "files (snd (prepareDebugLogfiles demo_env ''logs'' ''deploy my service'' demo_files))
     ''logs/debug-old.log'' = None \<and>
   files demo_files ''logs/debug-old.log'' = Some 0 \<and>
   files (snd (prepareDebugLogfiles demo_env ''logs'' ''deploy my service'' demo_files))
     ''logs/debug-new.log'' = Some 999999999 \<and>
   files (snd (prepareDebugLogfiles demo_env ''logs'' ''deploy my service'' demo_files))
     ''logs/notes.txt'' = Some 0 \<and>
   (\<exists>filename birthtime.
       (matches_debug filename \<or> matches_json filename) \<and>
       files demo_files (path_join demo_env ''logs'' filename) = Some birthtime \<and>
       moment_add_days demo_env 7 birthtime < moment_now demo_env filename \<and>
       (''logs/debug-old.log'' = path_join demo_env ''logs'' filename \<or>
        inside demo_env (path_join demo_env ''logs'' filename) ''logs/debug-old.log''))"
proof -
  let ?after = "snd (prepareDebugLogfiles demo_env ''logs'' ''deploy my service'' demo_files)"
  have a: "files ?after ''logs/debug-old.log'' = None"
    by code_simp
  have b: "files demo_files ''logs/debug-old.log'' = Some 0"
    by code_simp
  have c: "files ?after ''logs/debug-new.log'' = Some 999999999"
    by code_simp
  have d: "files ?after ''logs/notes.txt'' = Some 0"
    by code_simp
  show ?thesis
    using only_expired_logfiles_deleted
      [of demo_env "''logs''" "''deploy my service''" demo_files "''logs/debug-old.log''"] a b c d
    by simp
qed

lemma replace_first_space:
  "CHR '' '' \<notin> set a \<Longrightarrow> replace_first '' '' ''-'' (a @ CHR '' '' # b) = a @ CHR ''-'' # b"
  by (induction a) auto

lemma replace_first_count:
  "count_list (replace_first '' '' ''-'' s) CHR '' '' = count_list s CHR '' '' - 1"
  by (induction s) auto

text \<open>
  Claim C9. \<open>makeLogfileName\<close> replaces the first space of the command's full name by a
  hyphen and nothing else: what follows the first space is kept as it is. So a full name with
  two or more spaces gives a logfile name that still has a space in it.
\<close>

theorem makeLogfileName_first_space_only:
  "(CHR '' '' \<notin> set a \<longrightarrow>
      makeLogfileName logLevel (a @ '' '' @ b) extension isoNow =
        a @ ''-'' @ b @ ''.'' @ logLevel @ ''.'' @ isoNow @ ''.'' @ extension) \<and>
   (2 \<le> count_list commandFullName CHR '' '' \<longrightarrow>
      CHR '' '' \<in> set (makeLogfileName logLevel commandFullName extension isoNow))"
proof -
  have "0 < count_list (replace_first '' '' ''-'' commandFullName) CHR '' ''"
    if "2 \<le> count_list commandFullName CHR '' ''"
    using that by (simp add: replace_first_count)
  then have "CHR '' '' \<in> set (replace_first '' '' ''-'' commandFullName)"
    if "2 \<le> count_list commandFullName CHR '' ''"
    using that count_list_0_iff[of "replace_first '' '' ''-'' commandFullName" "CHR '' ''"] by auto
  then show ?thesis
    by (auto simp: makeLogfileName_def replace_first_space)
qed

theorem makeLogfileName_first_space_only_witness:
  "CHR '' '' \<notin> set ''deploy'' \<and>
   2 \<le> count_list ''deploy my service'' CHR '' '' \<and>
   makeLogfileName ''debug'' ''deploy my service'' ''log'' ''2022-01-31T09:33:55.001Z'' =
     ''deploy-my service.debug.2022-01-31T09:33:55.001Z.log'' \<and>
   CHR '' '' \<in> set (makeLogfileName ''debug'' ''deploy my service'' ''log''
     ''2022-01-31T09:33:55.001Z'')"
proof -
  have h1: "CHR '' '' \<notin> set ''deploy''"
    by simp
  have h2: "2 \<le> count_list ''deploy my service'' CHR '' ''"
    by simp
  show ?thesis
    using makeLogfileName_first_space_only
      [of "''deploy''" "''debug''" "''my service''" "''log''" "''2022-01-31T09:33:55.001Z''"
          "''deploy my service''"] h1 h2
    by simp
qed

end
